theory Spec2Isabelle
  imports Main "HOL-Library.Word"
begin

unbundle bit_operations_syntax

section \<open>Values of the platform\<close>

text \<open>
  Typed arrays (\<open>Uint8Array\<close>, \<open>Uint8ClampedArray\<close>) are lists of bytes. A JavaScript
  \<open>number\<close> that holds a length, an index or the result of an unsigned read is a
  \<open>nat\<close>; the 32-bit values that the bitwise operators work on are \<open>32 word\<close>.
  An exception of the platform is the \<open>Inl\<close> of a sum.
\<close>

type_synonym byte = "8 word"
type_synonym u32 = "32 word"

datatype js_error = RangeError | TypeError

definition andThen :: "js_error + 'a \<Rightarrow> ('a \<Rightarrow> js_error + 'b) \<Rightarrow> js_error + 'b" where
  "andThen r k = (case r of Inl e \<Rightarrow> Inl e | Inr v \<Rightarrow> k v)"

text \<open>
  \<open>DataView\<close> accessors, always called with \<open>littleEndian = true\<close> in this
  repository. Each raises \<open>RangeError\<close> when the access does not fit in the view; a
  setter stores its argument modulo the width of the field.
\<close>

definition setUint8 :: "byte list \<Rightarrow> nat \<Rightarrow> nat \<Rightarrow> js_error + byte list" where
  "setUint8 buf byteOffset v =
     (if length buf < byteOffset + 1 then Inl RangeError
      else Inr (buf[byteOffset := of_nat v]))"

definition setUint16 :: "byte list \<Rightarrow> nat \<Rightarrow> nat \<Rightarrow> js_error + byte list" where
  "setUint16 buf byteOffset v =
     (if length buf < byteOffset + 2 then Inl RangeError
      else Inr (buf[byteOffset := of_nat v, byteOffset + 1 := of_nat (v div 256)]))"

definition setUint32 :: "byte list \<Rightarrow> nat \<Rightarrow> nat \<Rightarrow> js_error + byte list" where
  "setUint32 buf byteOffset v =
     (if length buf < byteOffset + 4 then Inl RangeError
      else Inr (buf[byteOffset := of_nat v,
                    byteOffset + 1 := of_nat (v div 256),
                    byteOffset + 2 := of_nat (v div 65536),
                    byteOffset + 3 := of_nat (v div 16777216)]))"

definition getUint8 :: "byte list \<Rightarrow> nat \<Rightarrow> js_error + nat" where
  "getUint8 buf byteOffset =
     (if length buf < byteOffset + 1 then Inl RangeError
      else Inr (unat (buf ! byteOffset)))"

definition getUint16 :: "byte list \<Rightarrow> nat \<Rightarrow> js_error + nat" where
  "getUint16 buf byteOffset =
     (if length buf < byteOffset + 2 then Inl RangeError
      else Inr (unat (buf ! byteOffset) + 256 * unat (buf ! (byteOffset + 1))))"

definition getUint32 :: "byte list \<Rightarrow> nat \<Rightarrow> js_error + nat" where
  "getUint32 buf byteOffset =
     (if length buf < byteOffset + 4 then Inl RangeError
      else Inr (unat (buf ! byteOffset)
              + 256 * unat (buf ! (byteOffset + 1))
              + 65536 * unat (buf ! (byteOffset + 2))
              + 16777216 * unat (buf ! (byteOffset + 3))))"

text \<open>
  \<open>target.set(source, offset)\<close> of a typed array: \<open>RangeError\<close> when the source
  does not fit behind the offset.
\<close>

definition typedArraySet :: "byte list \<Rightarrow> byte list \<Rightarrow> nat \<Rightarrow> js_error + byte list" where
  "typedArraySet target source offset =
     (if length target < length source + offset then Inl RangeError
      else Inr (take offset target @ source @ drop (offset + length source) target))"

text \<open>
  \<open>xs.slice(start, end)\<close> with non-negative integer arguments: both ends are clamped
  to the length, and an end before the start gives the empty array.
\<close>

definition slice :: "'a list \<Rightarrow> nat \<Rightarrow> nat \<Rightarrow> 'a list" where
  "slice xs start end = take (end - start) (drop start xs)"

section \<open>crc32.ts\<close>

text \<open>
  The table is filled when the module is loaded: entry \<open>i\<close> is \<open>i\<close> after eight
  rounds of the shift-and-conditionally-xor step. The bitwise operators of the source
  work on the 32-bit pattern of their operands, and \<open>>>>\<close> is the zero-fill shift.
\<close>

definition crc32_table_round :: "u32 \<Rightarrow> u32" where
  "crc32_table_round crc =
     (if crc AND 1 \<noteq> 0 then 0xEDB88320 XOR drop_bit 1 crc else drop_bit 1 crc)"

definition CRC32_TABLE :: "nat \<Rightarrow> u32" where
  "CRC32_TABLE i = (crc32_table_round ^^ 8) (of_nat i)"

definition crc32_step :: "byte \<Rightarrow> u32 \<Rightarrow> u32" where
  "crc32_step b crc = CRC32_TABLE (unat ((crc XOR ucast b) AND 0xFF)) XOR drop_bit 8 crc"

definition crc32 :: "byte list \<Rightarrow> nat" where
  "crc32 data = unat (fold crc32_step data 0xFFFFFFFF XOR 0xFFFFFFFF)"

section \<open>packets.ts\<close>

definition MAGIC :: nat where "MAGIC = 0xDB02"
definition FRAME_WIDTH :: nat where "FRAME_WIDTH = 1920"
definition FRAME_HEIGHT :: nat where "FRAME_HEIGHT = 1080"
definition FRAME_BYTES :: nat where "FRAME_BYTES = FRAME_WIDTH * FRAME_HEIGHT * 3"
definition HEADER_SIZE :: nat where "HEADER_SIZE = 19"
definition MAX_PAYLOAD :: nat where "MAX_PAYLOAD = FRAME_BYTES - HEADER_SIZE"
definition FLAG_ENCRYPTED :: nat where "FLAG_ENCRYPTED = 0x01"
definition FLAG_REPAIR :: nat where "FLAG_REPAIR = 0x02"

record PacketHeader =
  magic :: nat
  flags :: nat
  packetIndex :: nat
  totalPackets :: nat
  payloadLength :: nat
  checksum :: nat

definition encodePacket :: "nat \<Rightarrow> nat \<Rightarrow> byte list \<Rightarrow> nat \<Rightarrow> js_error + byte list" where
  "encodePacket pIndex pTotal payload flgs =
     (let pLength = length payload;
          csum = crc32 payload;
          packet = replicate FRAME_BYTES 0
      in andThen (setUint16 packet 0 MAGIC) (\<lambda>packet.
         andThen (setUint8 packet 2 flgs) (\<lambda>packet.
         andThen (setUint32 packet 3 pIndex) (\<lambda>packet.
         andThen (setUint32 packet 7 pTotal) (\<lambda>packet.
         andThen (setUint32 packet 11 pLength) (\<lambda>packet.
         andThen (setUint32 packet 15 csum) (\<lambda>packet.
         typedArraySet packet payload HEADER_SIZE)))))))"

text \<open>The result \<open>null\<close> of \<open>decodePacket\<close> is \<open>None\<close>.\<close>

definition decodePacket :: "byte list \<Rightarrow> js_error + (PacketHeader \<times> byte list) option" where
  "decodePacket raw =
     (if length raw < HEADER_SIZE then Inr None
      else andThen (getUint16 raw 0) (\<lambda>mgc.
           if mgc \<noteq> MAGIC then Inr None
           else andThen (getUint8 raw 2) (\<lambda>flgs.
                andThen (getUint32 raw 3) (\<lambda>pIndex.
                andThen (getUint32 raw 7) (\<lambda>pTotal.
                andThen (getUint32 raw 11) (\<lambda>pLength.
                andThen (getUint32 raw 15) (\<lambda>csum.
                Inr (Some (\<lparr>magic = mgc, flags = flgs, packetIndex = pIndex,
                             totalPackets = pTotal, payloadLength = pLength,
                             checksum = csum\<rparr>,
                           slice raw HEADER_SIZE (HEADER_SIZE + pLength))))))))))"

definition verifyPacket :: "byte list \<Rightarrow> nat \<Rightarrow> bool" where
  "verifyPacket payload expectedChecksum \<longleftrightarrow> crc32 payload = expectedChecksum"


subsection \<open>Metadata of frame 0\<close>

text \<open>
  A JavaScript string is modelled by the sequence of its code points, as string iteration
  yields them: a surrogate pair is one code point above \<open>0xFFFF\<close>, an unpaired
  surrogate is a code point in \<open>0xD800..0xDFFF\<close>. \<open>TextEncoder\<close> and
  \<open>TextDecoder\<close> are the platform's UTF-8 codec (Encoding Standard): the encoder
  replaces an unpaired surrogate by \<open>U+FFFD\<close>; the decoder, constructed without options
  as in the source, replaces every malformed sequence by \<open>U+FFFD\<close> and drops one leading
  \<open>U+FEFF\<close>.
\<close>

type_synonym js_string = "nat list"

definition isSurrogate :: "nat \<Rightarrow> bool" where
  "isSurrogate c \<longleftrightarrow> 0xD800 \<le> c \<and> c \<le> 0xDFFF"

definition utf8_encode_cp :: "nat \<Rightarrow> byte list" where
  "utf8_encode_cp c =
     (if c < 0x80 then [of_nat c]
      else if c < 0x800 then [of_nat (0xC0 + c div 64), of_nat (0x80 + c mod 64)]
      else if c < 0x10000 then
        [of_nat (0xE0 + c div 4096), of_nat (0x80 + c div 64 mod 64), of_nat (0x80 + c mod 64)]
      else
        [of_nat (0xF0 + c div 262144), of_nat (0x80 + c div 4096 mod 64),
         of_nat (0x80 + c div 64 mod 64), of_nat (0x80 + c mod 64)])"

definition TextEncoder_encode :: "js_string \<Rightarrow> byte list" where
  "TextEncoder_encode s =
     concat (map (\<lambda>c. utf8_encode_cp (if isSurrogate c then 0xFFFD else c)) s)"

text \<open>
  The decoder's state: the code point under construction, the continuation bytes seen
  and needed, and the bounds of the next continuation byte. A byte that does not continue
  a sequence ends it with \<open>U+FFFD\<close> and is read again as the start of the next one.
\<close>

fun utf8_decode :: "nat \<Rightarrow> nat \<Rightarrow> nat \<Rightarrow> nat \<Rightarrow> nat \<Rightarrow> byte list \<Rightarrow> nat list" where
  "utf8_decode cp seen needed lower upper [] = (if needed \<noteq> 0 then [0xFFFD] else [])"
| "utf8_decode cp seen needed lower upper (b # bs) =
     (if needed = 0 then
        (if unat b \<le> 0x7F then unat b # utf8_decode 0 0 0 0x80 0xBF bs
         else if 0xC2 \<le> unat b \<and> unat b \<le> 0xDF then
           utf8_decode (unat b mod 32) 0 1 0x80 0xBF bs
         else if 0xE0 \<le> unat b \<and> unat b \<le> 0xEF then
           utf8_decode (unat b mod 16) 0 2
             (if unat b = 0xE0 then 0xA0 else 0x80) (if unat b = 0xED then 0x9F else 0xBF) bs
         else if 0xF0 \<le> unat b \<and> unat b \<le> 0xF4 then
           utf8_decode (unat b mod 8) 0 3
             (if unat b = 0xF0 then 0x90 else 0x80) (if unat b = 0xF4 then 0x8F else 0xBF) bs
         else 0xFFFD # utf8_decode 0 0 0 0x80 0xBF bs)
      else if unat b < lower \<or> upper < unat b then
        0xFFFD # utf8_decode 0 0 0 0x80 0xBF (b # bs)
      else if seen + 1 \<noteq> needed then
        utf8_decode (cp * 64 + unat b mod 64) (seen + 1) needed 0x80 0xBF bs
      else (cp * 64 + unat b mod 64) # utf8_decode 0 0 0 0x80 0xBF bs)"

definition TextDecoder_decode :: "byte list \<Rightarrow> js_string" where
  "TextDecoder_decode bytes =
     (case utf8_decode 0 0 0 0x80 0xBF bytes of
        [] \<Rightarrow> []
      | c # cs \<Rightarrow> if c = 0xFEFF then cs else c # cs)"

record Metadata =
  filename :: js_string
  fileSize :: nat
  mimeType :: js_string
  isEncrypted :: bool

definition encodeMetadata :: "js_string \<Rightarrow> nat \<Rightarrow> js_string \<Rightarrow> bool \<Rightarrow> js_error + byte list" where
  "encodeMetadata fname fsize mime enc =
     (let nameBytes = TextEncoder_encode fname;
          mimeBytes = TextEncoder_encode mime;
          buf = replicate (4 + length nameBytes + 4 + 4 + length mimeBytes + 1) 0
      in andThen (setUint32 buf 0 (length nameBytes)) (\<lambda>buf.
         andThen (typedArraySet buf nameBytes 4) (\<lambda>buf.
         andThen (setUint32 buf (4 + length nameBytes) fsize) (\<lambda>buf.
         andThen (setUint32 buf (4 + length nameBytes + 4) (length mimeBytes)) (\<lambda>buf.
         andThen (typedArraySet buf mimeBytes (4 + length nameBytes + 4 + 4)) (\<lambda>buf.
         Inr (buf[4 + length nameBytes + 4 + 4 + length mimeBytes := (if enc then 1 else 0)])))))))"

definition decodeMetadata :: "byte list \<Rightarrow> js_error + Metadata" where
  "decodeMetadata payload =
     andThen (getUint32 payload 0) (\<lambda>nameLen.
     let fname = TextDecoder_decode (slice payload 4 (4 + nameLen)) in
     andThen (getUint32 payload (4 + nameLen)) (\<lambda>fsize.
     andThen (getUint32 payload (4 + nameLen + 4)) (\<lambda>mimeLen.
     let mime = TextDecoder_decode (slice payload (4 + nameLen + 4 + 4) (4 + nameLen + 4 + 4 + mimeLen));
         offset = 4 + nameLen + 4 + 4 + mimeLen
     in Inr \<lparr>filename = fname, fileSize = fsize, mimeType = mime,
              isEncrypted = (offset < length payload \<and> payload ! offset = 1)\<rparr>)))"

subsection \<open>Frames as pixels\<close>

text \<open>
  \<open>data[j] || 0\<close>, and the value a typed array stores for a read past the end: the
  byte at \<open>j\<close>, or zero. An assignment past the end of a typed array is ignored, as
  a list update is.
\<close>

definition byteOrZero :: "byte list \<Rightarrow> nat \<Rightarrow> byte" where
  "byteOrZero xs j = (if j < length xs then xs ! j else 0)"

function bytesToPixels_loop :: "byte list \<Rightarrow> nat \<Rightarrow> nat \<Rightarrow> byte list \<Rightarrow> byte list" where
  "bytesToPixels_loop dat pixelCount i pixels =
     (if i < pixelCount then
        bytesToPixels_loop dat pixelCount (i + 1)
          (pixels[i * 4 := byteOrZero dat (i * 3),
                  i * 4 + 1 := byteOrZero dat (i * 3 + 1),
                  i * 4 + 2 := byteOrZero dat (i * 3 + 2),
                  i * 4 + 3 := 255])
      else pixels)"
  by pat_completeness auto
termination
  by (relation "measure (\<lambda>(dat, pixelCount, i, pixels). pixelCount - i)") auto

definition bytesToPixels :: "byte list \<Rightarrow> byte list" where
  "bytesToPixels dat =
     (let pixelCount = FRAME_WIDTH * FRAME_HEIGHT
      in bytesToPixels_loop dat pixelCount 0 (replicate (pixelCount * 4) 0))"

text \<open>
  \<open>pixelCount = pixels.length / 4\<close> need not be an integer: the array of
  \<open>pixelCount * 3\<close> bytes has the integer part of that length, and the loop runs while
  \<open>i < pixelCount\<close>, that is while \<open>i * 4 < pixels.length\<close>.
\<close>

function pixelsToBytes_loop :: "byte list \<Rightarrow> nat \<Rightarrow> byte list \<Rightarrow> byte list" where
  "pixelsToBytes_loop pixels i dat =
     (if i * 4 < length pixels then
        pixelsToBytes_loop pixels (i + 1)
          (dat[i * 3 := byteOrZero pixels (i * 4),
               i * 3 + 1 := byteOrZero pixels (i * 4 + 1),
               i * 3 + 2 := byteOrZero pixels (i * 4 + 2)])
      else dat)"
  by pat_completeness auto
termination
  by (relation "measure (\<lambda>(pixels, i, dat). length pixels - i * 4)") auto

definition pixelsToBytes :: "byte list \<Rightarrow> byte list" where
  "pixelsToBytes pixels = pixelsToBytes_loop pixels 0 (replicate (length pixels * 3 div 4) 0)"

section \<open>fountain.ts\<close>

text \<open>
  A \<open>number\<close> that may be \<open>NaN\<close>: the remainder \<open>a % b\<close> of a non-negative integer
  \<open>a\<close> is \<open>NaN\<close> when \<open>b\<close> is zero and has the sign of \<open>a\<close> otherwise.
\<close>

datatype jsnum = Num nat | NaN

definition js_rem :: "nat \<Rightarrow> int \<Rightarrow> jsnum" where
  "js_rem a b = (if b = 0 then NaN else Num (a mod nat \<bar>b\<bar>))"

text \<open>
  The seed \<open>repairIndex * 2654435761 + 1\<close> is computed in double precision: each
  operation rounds its exact result to 53 significant bits, ties to even. The repair index
  is the integer that the \<open>number\<close> holds. A result beyond the largest double is
  \<open>Infinity\<close>, which \<open>seed | 1\<close> reads as 0; the rounded integer is then a multiple of
  \<open>2^32\<close> and gives the same state.
\<close>

fun bitLength :: "nat \<Rightarrow> nat" where
  "bitLength n = (if n = 0 then 0 else Suc (bitLength (n div 2)))"

definition roundDouble :: "nat \<Rightarrow> nat" where
  "roundDouble v =
     (if v < 2 ^ 53 then v
      else let e = bitLength v - 53;
               q = v div 2 ^ e;
               rest = v mod 2 ^ e;
               half = 2 ^ (e - 1)
           in if rest < half then q * 2 ^ e
              else if half < rest then (q + 1) * 2 ^ e
              else if even q then q * 2 ^ e
              else (q + 1) * 2 ^ e)"

text \<open>
  \<open>xorshift32(seed)\<close> returns a closure over \<open>state\<close>; the model passes the state.
  \<open>seed | 1\<close> takes the seed modulo \<open>2^32\<close>. In the closure \<open><<\<close> shifts left,
  \<open>>>\<close> is the sign-propagating right shift, and \<open>state >>> 0\<close> reads the new state
  as an unsigned number.
\<close>

definition xorshift32 :: "nat \<Rightarrow> u32" where
  "xorshift32 seed = of_nat seed OR 1"

definition xorshift32_next :: "u32 \<Rightarrow> u32" where
  "xorshift32_next state =
     (let s1 = state XOR push_bit 13 state;
          s2 = s1 XOR signed_drop_bit 17 s1;
          s3 = s2 XOR push_bit 5 s2
      in s3)"

definition repairSeed :: "nat \<Rightarrow> u32" where
  "repairSeed r = xorshift32 (roundDouble (roundDouble (r * 2654435761) + 1))"

text \<open>
  A \<open>Set\<close> of numbers keeps its elements in insertion order, and \<open>NaN\<close> is equal to
  itself in a set. \<open>selected.size < degree\<close> is false when \<open>degree\<close> is \<open>NaN\<close>.
\<close>

definition setAdd :: "jsnum list \<Rightarrow> jsnum \<Rightarrow> jsnum list" where
  "setAdd selected v = (if v \<in> set selected then selected else selected @ [v])"

fun sizeBelow :: "nat \<Rightarrow> jsnum \<Rightarrow> bool" where
  "sizeBelow k (Num d) = (k < d)"
| "sizeBelow k NaN = False"

partial_function (option) selectLoop ::
  "u32 \<Rightarrow> jsnum list \<Rightarrow> jsnum \<Rightarrow> nat \<Rightarrow> jsnum list option" where
  "selectLoop state selected degree sourceCount =
     (if sizeBelow (length selected) degree
      then selectLoop (xorshift32_next state)
             (setAdd selected (js_rem (unat (xorshift32_next state)) (int sourceCount)))
             degree sourceCount
      else Some selected)"

definition getRepairSources :: "nat \<Rightarrow> nat \<Rightarrow> jsnum list option" where
  "getRepairSources r sourceCount =
     (let state1 = xorshift32_next (repairSeed r);
          degree = (case js_rem (unat state1) (min 4 (int sourceCount - 1)) of
                      Num d \<Rightarrow> Num (2 + d) | NaN \<Rightarrow> NaN)
      in selectLoop state1 [] degree sourceCount)"

definition deriveRepairSources :: "nat \<Rightarrow> nat \<Rightarrow> jsnum list option" where
  "deriveRepairSources r sourceCount = getRepairSources r sourceCount"

definition xorBytes :: "byte list \<Rightarrow> byte list \<Rightarrow> byte list" where
  "xorBytes a b =
     map (\<lambda>i. byteOrZero a i XOR byteOrZero b i) [0 ..< max (length a) (length b)]"

record RepairPacket =
  repairIndex :: nat
  sourceIndices :: "nat list"
  data :: "byte list"

text \<open>
  The inner loop of \<open>generateRepairPackets\<close>. \<open>sourcePackets[idx]\<close> is \<open>undefined\<close>
  for an index that is \<open>NaN\<close> or past the end, and \<open>xorBytes\<close> then raises
  \<open>TypeError\<close> on reading its length. The loop also collects the indices it has used:
  in a repair packet that is built, \<open>sourceIndices\<close> holds positions of the array only.
\<close>

fun xorSources ::
  "byte list list \<Rightarrow> jsnum list \<Rightarrow> nat list \<times> byte list \<Rightarrow> js_error + nat list \<times> byte list" where
  "xorSources sourcePackets [] acc = Inr acc"
| "xorSources sourcePackets (NaN # rest) acc = Inl TypeError"
| "xorSources sourcePackets (Num j # rest) (used, dat) =
     (if j < length sourcePackets
      then xorSources sourcePackets rest (used @ [j], xorBytes dat (sourcePackets ! j))
      else Inl TypeError)"

text \<open>
  \<open>Math.ceil(n * 0.3)\<close> at the ratio \<open>0.3\<close>, the default and the only one passed:
  the double nearest to \<open>0.3\<close> lies below it by less than \<open>2^-54\<close>, so for every array
  length the rounded product has the ceiling of \<open>3n/10\<close>.
\<close>

definition repairCountFor :: "nat \<Rightarrow> nat" where
  "repairCountFor n = max 1 ((3 * n + 9) div 10)"

text \<open>
  The loop over \<open>r\<close>. \<open>None\<close> is a call of \<open>getRepairSources\<close> that does not return;
  \<open>sourcePackets[0].length\<close> raises \<open>TypeError\<close> when there is no source.
\<close>

fun repairLoop ::
  "byte list list \<Rightarrow> nat list \<Rightarrow> RepairPacket list \<Rightarrow> (js_error + RepairPacket list) option" where
  "repairLoop sourcePackets [] repairs = Some (Inr repairs)"
| "repairLoop sourcePackets (r # rs) repairs =
     (case getRepairSources r (length sourcePackets) of
        None \<Rightarrow> None
      | Some idxs \<Rightarrow>
          (case sourcePackets of
             [] \<Rightarrow> Some (Inl TypeError)
           | first # _ \<Rightarrow>
               (case xorSources sourcePackets idxs ([], replicate (length first) 0) of
                  Inl e \<Rightarrow> Some (Inl e)
                | Inr (used, dat) \<Rightarrow>
                    repairLoop sourcePackets rs
                      (repairs @ [\<lparr>repairIndex = r, sourceIndices = used, data = dat\<rparr>]))))"

definition generateRepairPackets :: "byte list list \<Rightarrow> (js_error + RepairPacket list) option" where
  "generateRepairPackets sourcePackets =
     repairLoop sourcePackets [0 ..< repairCountFor (length sourcePackets)] []"

text \<open>
  The array \<open>recovered\<close>: \<open>null\<close> and a missing element are both absent; an
  assignment past the end extends the array.
\<close>

definition js_get :: "'a option list \<Rightarrow> nat \<Rightarrow> 'a option" where
  "js_get xs i = (if i < length xs then xs ! i else None)"

definition js_set :: "'a option list \<Rightarrow> nat \<Rightarrow> 'a \<Rightarrow> 'a option list" where
  "js_set xs i v =
     (if i < length xs then xs[i := Some v]
      else xs @ replicate (i - length xs) None @ [Some v])"

definition missingOf :: "byte list option list \<Rightarrow> nat list \<Rightarrow> nat list" where
  "missingOf recovered idxs = filter (\<lambda>idx. js_get recovered idx = None) idxs"

definition recoverData :: "byte list option list \<Rightarrow> RepairPacket \<Rightarrow> nat \<Rightarrow> byte list" where
  "recoverData recovered repair missingIdx =
     fold (\<lambda>idx dat.
             if idx \<noteq> missingIdx then
               (case js_get recovered idx of Some p \<Rightarrow> xorBytes dat p | None \<Rightarrow> dat)
             else dat)
          (sourceIndices repair) (data repair)"

fun peelPass ::
  "RepairPacket list \<Rightarrow> byte list option list \<Rightarrow> bool \<Rightarrow> byte list option list \<times> bool" where
  "peelPass [] recovered changed = (recovered, changed)"
| "peelPass (repair # rest) recovered changed =
     (let missing = missingOf recovered (sourceIndices repair)
      in if length missing = 1
         then peelPass rest
                (js_set recovered (missing ! 0) (recoverData recovered repair (missing ! 0))) True
         else peelPass rest recovered changed)"

definition absentCount :: "RepairPacket list \<Rightarrow> byte list option list \<Rightarrow> nat" where
  "absentCount repairs recovered =
     length (missingOf recovered (remdups (concat (map sourceIndices repairs))))"

lemma js_get_js_set: "js_get (js_set xs i v) j = (if j = i then Some v else js_get xs j)"
  by (auto simp: js_get_def js_set_def nth_append)

lemma peelPass_keeps:
  "js_get recovered j \<noteq> None \<Longrightarrow> js_get (fst (peelPass repairs recovered changed)) j \<noteq> None"
  by (induction repairs arbitrary: recovered changed) (auto simp: Let_def js_get_js_set)

lemma peelPass_fills:
  "snd (peelPass repairs recovered False) \<Longrightarrow>
   \<exists>j \<in> set (concat (map sourceIndices repairs)).
     js_get recovered j = None \<and> js_get (fst (peelPass repairs recovered False)) j \<noteq> None"
proof (induction repairs arbitrary: recovered)
  case Nil
  then show ?case by simp
next
  case (Cons repair rest)
  define missing where "missing = missingOf recovered (sourceIndices repair)"
  show ?case
  proof (cases "length missing = 1")
    case True
    then obtain m where m: "missing = [m]"
      by (cases missing) auto
    then have "m \<in> set (filter (\<lambda>idx. js_get recovered idx = None) (sourceIndices repair))"
      using missing_def by (simp add: missingOf_def)
    then have "m \<in> set (sourceIndices repair)" "js_get recovered m = None"
      by simp_all
    moreover have "js_get (fst (peelPass (repair # rest) recovered False)) m \<noteq> None"
      using True m by (simp add: missing_def[symmetric] peelPass_keeps js_get_js_set)
    ultimately show ?thesis by auto
  next
    case False
    then have eq: "peelPass (repair # rest) recovered False = peelPass rest recovered False"
      by (simp add: missing_def)
    from Cons.prems have "snd (peelPass rest recovered False)"
      by (simp only: eq)
    from Cons.IH[OF this] obtain j where
      "j \<in> set (concat (map sourceIndices rest))" "js_get recovered j = None"
      "js_get (fst (peelPass rest recovered False)) j \<noteq> None"
      by blast
    then show ?thesis
      by (intro bexI[where x = j]) (simp_all only: eq, simp_all)
  qed
qed

lemma missingOf_length_less:
  assumes keep: "\<And>j. js_get b j = None \<Longrightarrow> js_get a j = None"
    and fill: "j \<in> set idxs" "js_get a j = None" "js_get b j \<noteq> None"
  shows "length (missingOf b idxs) < length (missingOf a idxs)"
  unfolding missingOf_def
  using fill keep
proof (induction idxs)
  case Nil
  then show ?case by simp
next
  case (Cons i idxs)
  have le: "length (filter (\<lambda>idx. js_get b idx = None) idxs)
          \<le> length (filter (\<lambda>idx. js_get a idx = None) idxs)" for idxs
    using keep by (induction idxs) auto
  show ?case
  proof (cases "i = j")
    case True
    then show ?thesis using Cons.prems le[of idxs] by auto
  next
    case False
    then have "j \<in> set idxs" using Cons.prems by auto
    from Cons.IH[OF this Cons.prems(2,3)] keep show ?thesis
      using Cons.prems(4) by auto
  qed
qed

function recoverLoop :: "RepairPacket list \<Rightarrow> byte list option list \<Rightarrow> byte list option list" where
  "recoverLoop repairs recovered =
     (if snd (peelPass repairs recovered False)
      then recoverLoop repairs (fst (peelPass repairs recovered False))
      else fst (peelPass repairs recovered False))"
  by pat_completeness auto
termination
proof (relation "measure (\<lambda>(repairs, recovered). absentCount repairs recovered)")
  show "wf (measure (\<lambda>(repairs, recovered). absentCount repairs recovered))" by simp
next
  fix repairs :: "RepairPacket list" and recovered :: "byte list option list"
  assume ch: "snd (peelPass repairs recovered False)"
  from peelPass_fills[OF ch] obtain j where
    j: "j \<in> set (concat (map sourceIndices repairs))" "js_get recovered j = None"
       "js_get (fst (peelPass repairs recovered False)) j \<noteq> None"
    by auto
  have "absentCount repairs (fst (peelPass repairs recovered False)) < absentCount repairs recovered"
    unfolding absentCount_def
  proof (rule missingOf_length_less[where j = j])
    fix k assume "js_get (fst (peelPass repairs recovered False)) k = None"
    then show "js_get recovered k = None" using peelPass_keeps by blast
  qed (use j in auto)
  then show "((repairs, fst (peelPass repairs recovered False)), (repairs, recovered))
      \<in> measure (\<lambda>(repairs, recovered). absentCount repairs recovered)"
    by simp
qed




section \<open>The frames of one input file\<close>

text \<open>
  The body of the encoder's loop over the input files, from the bytes to be stored to the
  packets that are drawn as frames: frame 0 holds the metadata, then the sources, then the
  repairs. Encryption (Web Crypto, asynchronous) comes before and the video encoder after;
  both are outside the model, so the bytes to store, the size of the original and the
  encryption flag are its inputs. Without encryption the bytes are the file and the size is
  their length.
\<close>

lemma MAX_PAYLOAD_pos: "0 < MAX_PAYLOAD"
  by (simp add: MAX_PAYLOAD_def FRAME_BYTES_def FRAME_WIDTH_def FRAME_HEIGHT_def HEADER_SIZE_def)

function chunkLoop :: "byte list \<Rightarrow> nat \<Rightarrow> byte list list \<Rightarrow> byte list list" where
  "chunkLoop fileBytes offset sourceChunks =
     (if offset < length fileBytes then
        (let endOffset = min (offset + MAX_PAYLOAD) (length fileBytes);
             part = slice fileBytes offset endOffset;
             chunk = part @ replicate (MAX_PAYLOAD - length part) 0
         in chunkLoop fileBytes (offset + MAX_PAYLOAD) (sourceChunks @ [chunk]))
      else sourceChunks)"
  by pat_completeness auto
termination
  by (relation "measure (\<lambda>(fileBytes, offset, sourceChunks). length fileBytes - offset)")
     (use MAX_PAYLOAD_pos in auto)

fun sequenceFrames :: "(js_error + byte list) list \<Rightarrow> js_error + byte list list" where
  "sequenceFrames [] = Inr []"
| "sequenceFrames (f # fs) =
     andThen f (\<lambda>x. andThen (sequenceFrames fs) (\<lambda>xs. Inr (x # xs)))"

definition sourceFrame :: "byte list \<Rightarrow> byte list list \<Rightarrow> nat \<Rightarrow> nat \<Rightarrow> js_error + byte list" where
  "sourceFrame fileBytes sourceChunks totalFrames i =
     (let actualLength = min MAX_PAYLOAD (length fileBytes - i * MAX_PAYLOAD);
          payload = slice (sourceChunks ! i) 0 actualLength
      in encodePacket (i + 1) totalFrames payload 0)"

definition repairFrame :: "RepairPacket list \<Rightarrow> nat \<Rightarrow> nat \<Rightarrow> nat \<Rightarrow> js_error + byte list" where
  "repairFrame repairPackets totalSourcePackets totalFrames r =
     encodePacket (totalSourcePackets + r + 1) totalFrames (data (repairPackets ! r)) FLAG_REPAIR"

definition encodeFrames ::
  "js_string \<Rightarrow> nat \<Rightarrow> js_string \<Rightarrow> bool \<Rightarrow> byte list \<Rightarrow> (js_error + byte list list) option" where
  "encodeFrames originalName originalSize originalMime encrypted fileBytes =
     (let sourceChunks = chunkLoop fileBytes 0 []
      in case generateRepairPackets sourceChunks of
           None \<Rightarrow> None
         | Some (Inl e) \<Rightarrow> Some (Inl e)
         | Some (Inr repairPackets) \<Rightarrow>
             Some (let totalSourcePackets = length sourceChunks;
                       totalRepairPackets = length repairPackets;
                       totalFrames = 1 + totalSourcePackets + totalRepairPackets;
                       metaFlags = (if encrypted then FLAG_ENCRYPTED else 0)
                   in andThen (encodeMetadata originalName originalSize originalMime encrypted)
                        (\<lambda>metaPayload.
                      andThen (encodePacket 0 totalFrames metaPayload metaFlags)
                        (\<lambda>metaPacketBytes.
                      andThen (sequenceFrames
                                 (map (sourceFrame fileBytes sourceChunks totalFrames)
                                      [0 ..< totalSourcePackets]))
                        (\<lambda>sourceFrames.
                      andThen (sequenceFrames
                                 (map (repairFrame repairPackets totalSourcePackets totalFrames)
                                      [0 ..< totalRepairPackets]))
                        (\<lambda>repairFrames.
                      Inr (metaPacketBytes # sourceFrames @ repairFrames)))))))"

section \<open>Definitions that follow the words of the specification\<close>

text \<open>
  The specification describes the checksum as the reflected CRC-32 with polynomial
  \<open>0xEDB88320\<close>, initial value \<open>0xFFFFFFFF\<close> and final xor \<open>0xFFFFFFFF\<close>. Bit by
  bit, without a table: each byte is xored into the low bits of the register, which is
  then shifted right eight times, the polynomial being xored in whenever a one leaves.
\<close>

definition spec_crc32_bit :: "u32 \<Rightarrow> u32" where
  "spec_crc32_bit c = (if bit c 0 then drop_bit 1 c XOR 0xEDB88320 else drop_bit 1 c)"

definition spec_crc32_byte :: "u32 \<Rightarrow> byte \<Rightarrow> u32" where
  "spec_crc32_byte c b = (spec_crc32_bit ^^ 8) (c XOR ucast b)"

definition spec_crc32 :: "byte list \<Rightarrow> u32" where
  "spec_crc32 dat = foldl spec_crc32_byte 0xFFFFFFFF dat XOR 0xFFFFFFFF"

text \<open>
  The specification describes the generator of \<open>getRepairSources\<close> as xorshift32 on
  unsigned 32-bit words: the seed multiplication wraps modulo \<open>2^32\<close> and every shift is
  zero-filling. These two definitions follow those words, for comparison with
  \<open>repairSeed\<close> and \<open>xorshift32_next\<close>.
\<close>

definition spec_repairSeed :: "nat \<Rightarrow> u32" where
  "spec_repairSeed r = (of_nat r * 2654435761 + 1) OR 1"

definition spec_xorshift32_next :: "u32 \<Rightarrow> u32" where
  "spec_xorshift32_next x =
     (let x1 = x XOR push_bit 13 x;
          x2 = x1 XOR drop_bit 17 x1;
          x3 = x2 XOR push_bit 5 x2
      in x3)"

section \<open>Auxiliary definitions of the proofs\<close>

definition u16_le :: "nat \<Rightarrow> byte list" where
  "u16_le v = [of_nat v, of_nat (v div 256)]"

definition u32_le :: "nat \<Rightarrow> byte list" where
  "u32_le v = [of_nat v, of_nat (v div 256), of_nat (v div 65536), of_nat (v div 16777216)]"

definition header_bytes :: "nat \<Rightarrow> nat \<Rightarrow> nat \<Rightarrow> nat \<Rightarrow> nat \<Rightarrow> byte list" where
  "header_bytes f i t l c =
     u16_le MAGIC @ [of_nat f] @ u32_le i @ u32_le t @ u32_le l @ u32_le c"

definition xorSum :: "byte list \<Rightarrow> byte" where
  "xorSum xs = foldr (\<lambda>v x. v XOR x) xs 0"









definition isScalar :: "nat \<Rightarrow> bool" where
  "isScalar c \<longleftrightarrow> c < 0x110000 \<and> \<not> isSurrogate c"

definition le32At :: "byte list \<Rightarrow> nat \<Rightarrow> nat" where
  "le32At buf off = unat (buf ! off) + 256 * unat (buf ! (off + 1))
     + 65536 * unat (buf ! (off + 2)) + 16777216 * unat (buf ! (off + 3))"

definition metadata_bytes :: "byte list \<Rightarrow> nat \<Rightarrow> byte list \<Rightarrow> bool \<Rightarrow> byte list" where
  "metadata_bytes nameBytes fsize mimeBytes enc =
     u32_le (length nameBytes) @ nameBytes @ u32_le fsize @ u32_le (length mimeBytes) @ mimeBytes
       @ [if enc then 1 else 0]"

definition selectionOk :: "nat \<Rightarrow> nat \<Rightarrow> jsnum list \<Rightarrow> bool" where
  "selectionOk n k xs \<longleftrightarrow> distinct xs \<and> set xs \<subseteq> Num ` {0 ..< n} \<and> length xs \<le> k"

section \<open>Properties\<close>

declare bytesToPixels_loop.simps [simp del] pixelsToBytes_loop.simps [simp del]
  recoverLoop.simps [simp del] chunkLoop.simps [simp del]

subsection \<open>Checksum\<close>

lemma funpow_8: "(f ^^ 8) x = f (f (f (f (f (f (f (f x)))))))"
  by (simp add: numeral_eq_Suc)

lemma table_round_eq: "crc32_table_round c = spec_crc32_bit c"
  by (simp add: crc32_table_round_def spec_crc32_bit_def and_one_eq xor.commute bit_0 mod_2_eq_odd)

lemma bit_step_xor: "spec_crc32_bit (a XOR b) = spec_crc32_bit a XOR spec_crc32_bit b"
  by (auto simp: spec_crc32_bit_def bit_xor_iff drop_bit_xor xor.assoc xor.left_commute xor.commute)

lemma bit_steps_xor:
  "(spec_crc32_bit ^^ k) (a XOR b) = (spec_crc32_bit ^^ k) a XOR (spec_crc32_bit ^^ k) b"
  by (induction k) (simp_all add: bit_step_xor)

lemma bit_steps_high:
  "k \<le> 8 \<Longrightarrow> (spec_crc32_bit ^^ k) (push_bit 8 z) = drop_bit k (push_bit 8 z)"
proof (induction k)
  case 0
  then show ?case by simp
next
  case (Suc k)
  then have IH: "(spec_crc32_bit ^^ k) (push_bit 8 z) = drop_bit k (push_bit 8 z)" by simp
  have "\<not> bit (drop_bit k (push_bit 8 z)) 0"
    using Suc.prems by (simp add: bit_simps)
  then have "spec_crc32_bit (drop_bit k (push_bit 8 z)) = drop_bit (Suc k) (push_bit 8 z)"
    by (simp add: spec_crc32_bit_def drop_bit_drop_bit)
  then show ?case using IH by simp
qed

lemma split_low_high: "(x :: u32) = take_bit 8 x XOR push_bit 8 (drop_bit 8 x)"
  by (rule bit_eqI) (auto simp: bit_simps)

lemma bit_steps_byte:
  "(spec_crc32_bit ^^ 8) x = (spec_crc32_bit ^^ 8) (take_bit 8 x) XOR drop_bit 8 x"
proof -
  have "(spec_crc32_bit ^^ 8) x =
      (spec_crc32_bit ^^ 8) (take_bit 8 x XOR push_bit 8 (drop_bit 8 x))"
    using split_low_high[of x] by simp
  also have "\<dots> = (spec_crc32_bit ^^ 8) (take_bit 8 x) XOR drop_bit 8 (push_bit 8 (drop_bit 8 x))"
    by (simp only: bit_steps_xor bit_steps_high[OF order_refl])
  also have "drop_bit 8 (push_bit 8 (drop_bit 8 x)) = drop_bit 8 x"
    by (rule bit_eqI) (auto simp: bit_simps dest: bit_imp_le_length)
  finally show ?thesis .
qed

lemma table_entry: "CRC32_TABLE (unat (x AND 0xFF)) = (spec_crc32_bit ^^ 8) (take_bit 8 x)"
proof -
  have r: "crc32_table_round = spec_crc32_bit"
    by (rule ext) (rule table_round_eq)
  have "(x AND 0xFF) = take_bit 8 x"
    by (simp add: take_bit_eq_mask mask_eq_exp_minus_1)
  then show ?thesis
    by (simp add: CRC32_TABLE_def r)
qed

lemma crc32_step_spec: "crc32_step b c = spec_crc32_byte c b"
proof -
  have hi: "drop_bit 8 (c XOR ucast b) = drop_bit 8 c"
    by (rule bit_eqI) (auto simp: bit_simps dest: bit_imp_le_length)
  show ?thesis
    unfolding crc32_step_def spec_crc32_byte_def table_entry
    by (subst (2) bit_steps_byte) (simp only: hi)
qed

lemma crc32_spec: "crc32 dat = unat (spec_crc32 dat)"
proof -
  have "fold crc32_step dat c = foldl spec_crc32_byte c dat" for c
    by (induction dat arbitrary: c) (simp_all add: crc32_step_spec)
  then show ?thesis by (simp add: crc32_def spec_crc32_def)
qed

lemma crc32_values:
  "crc32 [] = 0x00000000 \<and> crc32 [0x61] = 0xE8B7BE43 \<and>
   crc32 [0x31, 0x32, 0x33, 0x34, 0x35, 0x36, 0x37, 0x38, 0x39] = 0xCBF43926"
  by (simp add: crc32_def crc32_step_def CRC32_TABLE_def crc32_table_round_def funpow_8)

text \<open>
  C7. \<open>crc32\<close> is the reflected CRC-32 with polynomial \<open>0xEDB88320\<close>, initial value
  \<open>0xFFFFFFFF\<close> and final xor \<open>0xFFFFFFFF\<close>: on every input the table-driven loop of
  the source gives the value of the bit-by-bit definition; the empty input gives
  \<open>0x00000000\<close>, the single byte \<open>0x61\<close> gives \<open>0xE8B7BE43\<close> and the nine bytes of
  \<open>123456789\<close> give \<open>0xCBF43926\<close>.
\<close>

theorem crc32_check_values:
  "crc32 dat = unat (spec_crc32 dat) \<and>
   crc32 [] = 0x00000000 \<and> crc32 [0x61] = 0xE8B7BE43 \<and>
   crc32 [0x31, 0x32, 0x33, 0x34, 0x35, 0x36, 0x37, 0x38, 0x39] = 0xCBF43926"
  using crc32_spec crc32_values by simp

lemma crc32_less: "crc32 p < 2 ^ 32"
  unfolding crc32_def using unsigned_less[of "fold crc32_step p 0xFFFFFFFF XOR 0xFFFFFFFF"]
  by simp

subsection \<open>Packets\<close>

lemma upd_front1: "1 \<le> length rest \<Longrightarrow> rest[0 := a] = a # drop 1 rest"
  by (cases rest) simp_all

lemma upd_front2: "2 \<le> length rest \<Longrightarrow> rest[0 := a, Suc 0 := b] = a # b # drop 2 rest"
  by (cases rest) (simp_all add: upd_front1)

lemma upd_front4:
  "4 \<le> length rest \<Longrightarrow> rest[0 := a, Suc 0 := b, 2 := c, 3 := d] = a # b # c # d # drop 4 rest"
proof -
  assume "4 \<le> length rest"
  then obtain r0 r1 r2 r3 rs where "rest = r0 # r1 # r2 # r3 # rs"
    by (metis (no_types, opaque_lifting) Suc_le_length_iff numeral_eq_Suc pred_numeral_simps(2,3) semiring_norm(26,27))
  then show ?thesis by (simp add: numeral_eq_Suc)
qed

lemma setUint8_at:
  "length pre = off \<Longrightarrow> 1 \<le> length rest \<Longrightarrow>
   setUint8 (pre @ rest) off v = Inr (pre @ [of_nat v] @ drop 1 rest)"
  by (cases rest) (simp_all add: setUint8_def list_update_append)

lemma setUint16_at:
  "length pre = off \<Longrightarrow> 2 \<le> length rest \<Longrightarrow>
   setUint16 (pre @ rest) off v = Inr (pre @ u16_le v @ drop 2 rest)"
  by (simp add: setUint16_def list_update_append upd_front2 u16_le_def)

lemma setUint32_at:
  "length pre = off \<Longrightarrow> 4 \<le> length rest \<Longrightarrow>
   setUint32 (pre @ rest) off v = Inr (pre @ u32_le v @ drop 4 rest)"
  by (simp add: setUint32_def list_update_append upd_front4 u32_le_def)

lemma le32: "(v::nat) mod 256 + 256 * (v div 256 mod 256) + 65536 * (v div 65536 mod 256) + 16777216 * (v div 16777216 mod 256) = v mod 4294967296"
proof -
  have a: "v mod 65536 = 256 * (v div 256 mod 256) + v mod 256"
    using mod_mult2_eq[of v 256 256] by simp
  have b: "v mod 16777216 = 65536 * (v div 65536 mod 256) + v mod 65536"
    using mod_mult2_eq[of v 65536 256] by simp
  have c: "v mod 4294967296 = 16777216 * (v div 16777216 mod 256) + v mod 16777216"
    using mod_mult2_eq[of v 16777216 256] by simp
  show ?thesis using a b c by linarith
qed

lemma le16: "(v::nat) mod 256 + 256 * (v div 256 mod 256) = v mod 65536"
  using mod_mult2_eq[of v 256 256] by simp

lemma getUint8_at:
  "length pre = off \<Longrightarrow> getUint8 (pre @ [of_nat v] @ rest) off = Inr (v mod 256)"
  by (simp add: getUint8_def nth_append unat_of_nat)

lemma getUint16_at:
  "length pre = off \<Longrightarrow> getUint16 (pre @ u16_le v @ rest) off = Inr (v mod 65536)"
  by (simp add: getUint16_def nth_append unat_of_nat u16_le_def le16)

lemma getUint32_at:
  "length pre = off \<Longrightarrow> getUint32 (pre @ u32_le v @ rest) off = Inr (v mod 4294967296)"
  by (simp add: getUint32_def nth_append unat_of_nat u32_le_def le32)

lemma length_header_bytes: "length (header_bytes f i t l c) = 19"
  by (simp add: header_bytes_def u16_le_def u32_le_def)

lemma write_header:
  assumes "19 \<le> length buf"
  shows "andThen (setUint16 buf 0 MAGIC) (\<lambda>packet.
         andThen (setUint8 packet 2 f) (\<lambda>packet.
         andThen (setUint32 packet 3 i) (\<lambda>packet.
         andThen (setUint32 packet 7 t) (\<lambda>packet.
         andThen (setUint32 packet 11 l) (\<lambda>packet.
         andThen (setUint32 packet 15 c) k))))) = k (header_bytes f i t l c @ drop 19 buf)"
proof -
  define h2 where "h2 = u16_le MAGIC"
  define h3 where "h3 = h2 @ [of_nat f]"
  define h7 where "h7 = h3 @ u32_le i"
  define h11 where "h11 = h7 @ u32_le t"
  define h15 where "h15 = h11 @ u32_le l"
  define h19 where "h19 = h15 @ u32_le c"
  have len: "length h2 = 2" "length h3 = 3" "length h7 = 7" "length h11 = 11"
      "length h15 = 15"
    by (simp_all add: h2_def h3_def h7_def h11_def h15_def u16_le_def u32_le_def)
  have s1: "setUint16 buf 0 MAGIC = Inr (h2 @ drop 2 buf)"
    using setUint16_at[of "[]" 0 buf MAGIC] assms by (simp add: h2_def)
  have s2: "setUint8 (h2 @ drop 2 buf) 2 f = Inr (h3 @ drop 3 buf)"
    using setUint8_at[of h2 2 "drop 2 buf" f] assms len by (simp add: h3_def numeral_3_eq_3)
  have s3: "setUint32 (h3 @ drop 3 buf) 3 i = Inr (h7 @ drop 7 buf)"
    using setUint32_at[of h3 3 "drop 3 buf" i] assms len by (simp add: h7_def)
  have s4: "setUint32 (h7 @ drop 7 buf) 7 t = Inr (h11 @ drop 11 buf)"
    using setUint32_at[of h7 7 "drop 7 buf" t] assms len by (simp add: h11_def)
  have s5: "setUint32 (h11 @ drop 11 buf) 11 l = Inr (h15 @ drop 15 buf)"
    using setUint32_at[of h11 11 "drop 11 buf" l] assms len by (simp add: h15_def)
  have s6: "setUint32 (h15 @ drop 15 buf) 15 c = Inr (h19 @ drop 19 buf)"
    using setUint32_at[of h15 15 "drop 15 buf" c] assms len by (simp add: h19_def)
  have h: "h19 = header_bytes f i t l c"
    by (simp add: h19_def h15_def h11_def h7_def h3_def h2_def header_bytes_def)
  show ?thesis
    by (simp add: andThen_def s1 s2 s3 s4 s5 s6 h)
qed

lemma frame_bytes_val: "FRAME_BYTES = 6220800"
  by (simp add: FRAME_BYTES_def FRAME_WIDTH_def FRAME_HEIGHT_def)

lemma encodePacket_layout:
  assumes "length p \<le> MAX_PAYLOAD"
  shows "encodePacket i t p f =
    Inr (header_bytes f i t (length p) (crc32 p) @ p @ replicate (MAX_PAYLOAD - length p) 0)"
proof -
  have L: "19 + length p \<le> FRAME_BYTES" "19 \<le> FRAME_BYTES"
    using assms by (simp_all add: MAX_PAYLOAD_def HEADER_SIZE_def frame_bytes_val)
  have M: "FRAME_BYTES - (19 + length p) = MAX_PAYLOAD - length p"
    by (simp add: MAX_PAYLOAD_def HEADER_SIZE_def)
  show ?thesis
    unfolding encodePacket_def Let_def
    apply (subst write_header)
    using L apply simp
    using L apply (simp add: typedArraySet_def HEADER_SIZE_def length_header_bytes M)
    done
qed

lemma read_header:
  assumes "f < 256" "i < 2^32" "t < 2^32" "l < 2^32" "c < 2^32"
  shows "decodePacket (header_bytes f i t l c @ rest) =
     Inr (Some (\<lparr>magic = MAGIC, flags = f, packetIndex = i, totalPackets = t,
                  payloadLength = l, checksum = c\<rparr>, take l rest))"
proof -
  define raw where "raw = header_bytes f i t l c @ rest"
  have g1: "getUint16 raw 0 = Inr MAGIC"
    using getUint16_at[of "[]" 0 MAGIC "[of_nat f] @ u32_le i @ u32_le t @ u32_le l @ u32_le c @ rest"]
    by (simp add: raw_def header_bytes_def MAGIC_def)
  have g2: "getUint8 raw 2 = Inr f"
    using getUint8_at[of "u16_le MAGIC" 2 f "u32_le i @ u32_le t @ u32_le l @ u32_le c @ rest"] assms
    by (simp add: raw_def header_bytes_def u16_le_def)
  have g3: "getUint32 raw 3 = Inr i"
    using getUint32_at[of "u16_le MAGIC @ [of_nat f]" 3 i "u32_le t @ u32_le l @ u32_le c @ rest"] assms
    by (simp add: raw_def header_bytes_def u16_le_def)
  have g4: "getUint32 raw 7 = Inr t"
    using getUint32_at[of "u16_le MAGIC @ [of_nat f] @ u32_le i" 7 t "u32_le l @ u32_le c @ rest"] assms
    by (simp add: raw_def header_bytes_def u16_le_def u32_le_def)
  have g5: "getUint32 raw 11 = Inr l"
    using getUint32_at[of "u16_le MAGIC @ [of_nat f] @ u32_le i @ u32_le t" 11 l "u32_le c @ rest"] assms
    by (simp add: raw_def header_bytes_def u16_le_def u32_le_def)
  have g6: "getUint32 raw 15 = Inr c"
    using getUint32_at[of "u16_le MAGIC @ [of_nat f] @ u32_le i @ u32_le t @ u32_le l" 15 c "rest"] assms
    by (simp add: raw_def header_bytes_def u16_le_def u32_le_def)
  have len: "length raw = 19 + length rest" "drop 19 raw = rest"
    by (simp_all add: raw_def length_header_bytes)
  show ?thesis
    unfolding raw_def[symmetric] decodePacket_def
    by (simp add: g1 g2 g3 g4 g5 g6 andThen_def HEADER_SIZE_def len slice_def)
qed


text \<open>
  C4. For a payload of at most \<open>MAX_PAYLOAD\<close> bytes and an index, a total and flags that
  fit their header fields, \<open>encodePacket\<close> returns a buffer of exactly \<open>FRAME_BYTES\<close>
  bytes; \<open>decodePacket\<close> of that buffer succeeds with magic \<open>0xDB02\<close>, the flags, the
  index, the total, the length of the payload, the CRC-32 of the payload, and the payload
  itself; the bytes behind header and payload are all zero.
\<close>

theorem encodePacket_decodePacket:
  assumes "length p \<le> MAX_PAYLOAD" "i < 2 ^ 32" "t < 2 ^ 32" "f < 2 ^ 8"
  shows "\<exists>buf. encodePacket i t p f = Inr buf \<and> length buf = FRAME_BYTES \<and>
           decodePacket buf =
             Inr (Some (\<lparr>magic = 0xDB02, flags = f, packetIndex = i, totalPackets = t,
                          payloadLength = length p, checksum = crc32 p\<rparr>, p)) \<and>
           drop (HEADER_SIZE + length p) buf =
             replicate (FRAME_BYTES - (HEADER_SIZE + length p)) 0"
proof -
  define buf where
    "buf = header_bytes f i t (length p) (crc32 p) @ p @ replicate (MAX_PAYLOAD - length p) 0"
  have enc: "encodePacket i t p f = Inr buf"
    using assms(1) by (simp add: encodePacket_layout buf_def)
  have lp: "length p < 2 ^ 32"
    using assms(1) by (simp add: MAX_PAYLOAD_def HEADER_SIZE_def frame_bytes_val)
  have len: "length buf = FRAME_BYTES"
    using assms(1) by (simp add: buf_def length_header_bytes MAX_PAYLOAD_def HEADER_SIZE_def frame_bytes_val)
  have dec: "decodePacket buf =
      Inr (Some (\<lparr>magic = 0xDB02, flags = f, packetIndex = i, totalPackets = t,
                   payloadLength = length p, checksum = crc32 p\<rparr>, p))"
    unfolding buf_def using assms lp crc32_less[of p]
    by (simp add: read_header MAGIC_def)
  have tl: "drop (HEADER_SIZE + length p) buf = replicate (FRAME_BYTES - (HEADER_SIZE + length p)) 0"
    using assms(1) by (simp add: buf_def length_header_bytes HEADER_SIZE_def MAX_PAYLOAD_def)
  show ?thesis using enc len dec tl by blast
qed

theorem encodePacket_decodePacket_witness:
  "length [1, 2, 3 :: byte] \<le> MAX_PAYLOAD \<and> (1::nat) < 2 ^ 32 \<and> (3::nat) < 2 ^ 32 \<and> (0::nat) < 2 ^ 8 \<and>
   (\<exists>buf. encodePacket 1 3 [1, 2, 3] 0 = Inr buf \<and> length buf = FRAME_BYTES \<and>
      decodePacket buf =
        Inr (Some (\<lparr>magic = 0xDB02, flags = 0, packetIndex = 1, totalPackets = 3,
                     payloadLength = length [1, 2, 3 :: byte],
                     checksum = crc32 [1, 2, 3]\<rparr>, [1, 2, 3])) \<and>
      drop (HEADER_SIZE + length [1, 2, 3 :: byte]) buf =
        replicate (FRAME_BYTES - (HEADER_SIZE + length [1, 2, 3 :: byte])) 0)"
  using encodePacket_decodePacket[of "[1, 2, 3]" 1 3 0]
  by (simp add: MAX_PAYLOAD_def HEADER_SIZE_def frame_bytes_val)

text \<open>
  C10. For a buffer of at least 19 bytes whose first two bytes read, little-endian, as the
  magic \<open>0xDB02\<close>, \<open>decodePacket\<close> returns a result that is not \<open>null\<close> and raises
  nothing, whatever the length field of the header holds: the payload returned is the
  bytes behind the header cut at that length, so it has \<open>min payloadLength (length raw - 19)\<close>
  bytes, and a length field beyond the buffer gives a shorter payload without a failure.
\<close>

theorem decodePacket_truncates:
  assumes "19 \<le> length raw" "unat (raw ! 0) + 256 * unat (raw ! 1) = 0xDB02"
  shows "\<exists>hdr payload. decodePacket raw = Inr (Some (hdr, payload)) \<and>
           getUint32 raw 11 = Inr (payloadLength hdr) \<and>
           payload = take (payloadLength hdr) (drop 19 raw) \<and>
           length payload = min (payloadLength hdr) (length raw - 19)"
  using assms
  by (simp add: decodePacket_def HEADER_SIZE_def MAGIC_def getUint16_def getUint8_def
      getUint32_def andThen_def slice_def)

theorem decodePacket_truncates_witness:
  "19 \<le> length [0x02, 0xDB, 0, 0, 0, 0, 0, 0, 0, 0, 0, 0xFF, 0, 0, 0, 0, 0, 0, 0, 0xAA :: byte] \<and>
   unat ([0x02, 0xDB, 0, 0, 0, 0, 0, 0, 0, 0, 0, 0xFF, 0, 0, 0, 0, 0, 0, 0, 0xAA :: byte] ! 0)
     + 256 * unat ([0x02, 0xDB, 0, 0, 0, 0, 0, 0, 0, 0, 0, 0xFF, 0, 0, 0, 0, 0, 0, 0, 0xAA :: byte] ! 1)
     = 0xDB02 \<and>
   (\<exists>hdr payload.
      decodePacket [0x02, 0xDB, 0, 0, 0, 0, 0, 0, 0, 0, 0, 0xFF, 0, 0, 0, 0, 0, 0, 0, 0xAA] =
        Inr (Some (hdr, payload)) \<and>
      getUint32 [0x02, 0xDB, 0, 0, 0, 0, 0, 0, 0, 0, 0, 0xFF, 0, 0, 0, 0, 0, 0, 0, 0xAA] 11 =
        Inr (payloadLength hdr) \<and>
      payload = take (payloadLength hdr)
        (drop 19 [0x02, 0xDB, 0, 0, 0, 0, 0, 0, 0, 0, 0, 0xFF, 0, 0, 0, 0, 0, 0, 0, 0xAA]) \<and>
      length payload = min (payloadLength hdr)
        (length [0x02, 0xDB, 0, 0, 0, 0, 0, 0, 0, 0, 0, 0xFF, 0, 0, 0, 0, 0, 0, 0, 0xAA :: byte] - 19))"
  using decodePacket_truncates
    [of "[0x02, 0xDB, 0, 0, 0, 0, 0, 0, 0, 0, 0, 0xFF, 0, 0, 0, 0, 0, 0, 0, 0xAA]"]
  by simp

subsection \<open>Pixels\<close>




lemma length_bytesToPixels_loop:
  "length (bytesToPixels_loop dat pc i px) = length px"
proof (induction dat pc i px rule: bytesToPixels_loop.induct)
  case (1 dat pc i px)
  show ?case
    using 1 by (subst bytesToPixels_loop.simps) simp
qed

lemma nth_bytesToPixels_loop:
  "m < length px \<Longrightarrow>
   bytesToPixels_loop dat pc i px ! m =
     (if i \<le> m div 4 \<and> m div 4 < pc
      then (if m mod 4 = 3 then 255 else byteOrZero dat (3 * (m div 4) + m mod 4))
      else px ! m)"
proof (induction dat pc i px rule: bytesToPixels_loop.induct)
  case (1 dat pc i px)
  show ?case
  proof (cases "i < pc")
    case False
    then show ?thesis
      by (subst bytesToPixels_loop.simps) auto
  next
    case True
    define px' where "px' = px[i * 4 := byteOrZero dat (i * 3),
                  i * 4 + 1 := byteOrZero dat (i * 3 + 1),
                  i * 4 + 2 := byteOrZero dat (i * 3 + 2),
                  i * 4 + 3 := 255]"
    have len: "m < length px'" using 1(2) by (simp add: px'_def)
    have step: "bytesToPixels_loop dat pc i px = bytesToPixels_loop dat pc (i + 1) px'"
      using True by (subst bytesToPixels_loop.simps) (simp add: px'_def)
    have IH: "bytesToPixels_loop dat pc (i + 1) px' ! m =
     (if i + 1 \<le> m div 4 \<and> m div 4 < pc
      then (if m mod 4 = 3 then 255 else byteOrZero dat (3 * (m div 4) + m mod 4))
      else px' ! m)"
      using 1(1)[OF True] 1(2) by (simp add: px'_def)
    show ?thesis
    proof (cases "m div 4 = i")
      case False
      then have "px' ! m = px ! m"
        unfolding px'_def using 1(2) by (auto simp: nth_list_update)
      with False True show ?thesis unfolding step IH by auto
    next
      case mi: True
      then have m: "m = i * 4 + m mod 4" by (metis div_mult_mod_eq)
      have "m mod 4 = 0 \<or> m mod 4 = 1 \<or> m mod 4 = 2 \<or> m mod 4 = 3" by arith
      then have "px' ! m = (if m mod 4 = 3 then 255 else byteOrZero dat (3 * i + m mod 4))"
        using 1(2) m unfolding px'_def
        by (elim disjE) (subst m, simp add: nth_list_update mult.commute)+
      with mi True show ?thesis unfolding step IH by auto
    qed
  qed
qed


lemma length_pixelsToBytes_loop:
  "length (pixelsToBytes_loop px i dat) = length dat"
proof (induction px i dat rule: pixelsToBytes_loop.induct)
  case (1 px i dat)
  show ?case
    using 1 by (subst pixelsToBytes_loop.simps) simp
qed

lemma nth_pixelsToBytes_loop:
  "m < length dat \<Longrightarrow>
   pixelsToBytes_loop px i dat ! m =
     (if i \<le> m div 3 \<and> m div 3 * 4 < length px
      then byteOrZero px (4 * (m div 3) + m mod 3)
      else dat ! m)"
proof (induction px i dat rule: pixelsToBytes_loop.induct)
  case (1 px i dat)
  show ?case
  proof (cases "i * 4 < length px")
    case False
    have "\<not> (i \<le> m div 3 \<and> m div 3 * 4 < length px)"
    proof
      assume a: "i \<le> m div 3 \<and> m div 3 * 4 < length px"
      then have "i * 4 \<le> m div 3 * 4" by simp
      with a False show False by linarith
    qed
    then have nc: "(i \<le> m div 3 \<and> m div 3 * 4 < length px) = False"
      by blast
    have "pixelsToBytes_loop px i dat = dat"
      using False by (subst pixelsToBytes_loop.simps) simp
    then show ?thesis
      by (simp only: nc if_False)
  next
    case True
    define dat' where "dat' = dat[i * 3 := byteOrZero px (i * 4),
               i * 3 + 1 := byteOrZero px (i * 4 + 1),
               i * 3 + 2 := byteOrZero px (i * 4 + 2)]"
    have step: "pixelsToBytes_loop px i dat = pixelsToBytes_loop px (i + 1) dat'"
      using True by (subst pixelsToBytes_loop.simps) (simp add: dat'_def)
    have IH: "pixelsToBytes_loop px (i + 1) dat' ! m =
     (if i + 1 \<le> m div 3 \<and> m div 3 * 4 < length px
      then byteOrZero px (4 * (m div 3) + m mod 3)
      else dat' ! m)"
      using 1(1)[OF True] 1(2) by (simp add: dat'_def)
    show ?thesis
    proof (cases "m div 3 = i")
      case False
      then have "dat' ! m = dat ! m"
        unfolding dat'_def using 1(2) by (auto simp: nth_list_update)
      with False True show ?thesis unfolding step IH by auto
    next
      case mi: True
      then have m: "m = i * 3 + m mod 3" by (metis div_mult_mod_eq)
      have "m mod 3 = 0 \<or> m mod 3 = 1 \<or> m mod 3 = 2" by arith
      then have "dat' ! m = byteOrZero px (4 * i + m mod 3)"
        using 1(2) m unfolding dat'_def
        by (elim disjE) (subst m, simp add: nth_list_update mult.commute)+
      with mi True show ?thesis unfolding step IH by auto
    qed
  qed
qed

lemma divmod4: "r < 4 \<Longrightarrow> (4 * i + r) div 4 = i \<and> (4 * i + r) mod 4 = (r::nat)"
  by simp

lemma length_bytesToPixels: "length (bytesToPixels b) = 2073600 * 4"
  by (simp add: bytesToPixels_def Let_def length_bytesToPixels_loop FRAME_WIDTH_def FRAME_HEIGHT_def)

lemma nth_bytesToPixels:
  "m < 2073600 * 4 \<Longrightarrow>
   bytesToPixels b ! m =
     (if m mod 4 = 3 then 255 else byteOrZero b (3 * (m div 4) + m mod 4))"
  using less_mult_imp_div_less[of m 2073600 4]
  by (simp add: bytesToPixels_def Let_def nth_bytesToPixels_loop FRAME_WIDTH_def FRAME_HEIGHT_def)

lemma frame_bytes_val': "FRAME_BYTES = 2073600 * 3"
  by (simp add: FRAME_BYTES_def FRAME_WIDTH_def FRAME_HEIGHT_def)

lemma pixelsToBytes_bytesToPixels:
  assumes "length b = FRAME_BYTES"
  shows "pixelsToBytes (bytesToPixels b) = b"
proof (rule nth_equalityI)
  have lb: "length b = 6220800" using assms by (simp add: frame_bytes_val')
  show len: "length (pixelsToBytes (bytesToPixels b)) = length b"
    by (simp add: pixelsToBytes_def length_pixelsToBytes_loop length_bytesToPixels lb)
  fix m assume "m < length (pixelsToBytes (bytesToPixels b))"
  then have m: "m < 6220800"
    using len lb by simp
  define M where "M = 4 * (m div 3) + m mod 3"
  have d: "m div 3 < 2073600"
    using m by simp
  have "m mod 3 < 4" by (rule less_trans[OF mod_less_divisor]) simp_all
  then have M4: "M div 4 = m div 3" "M mod 4 = m mod 3"
    unfolding M_def by (simp_all add: divmod4)
  have Mlt: "M < 2073600 * 4"
    using d unfolding M_def by arith
  have m3: "m mod 3 \<noteq> 3" by arith
  have "pixelsToBytes (bytesToPixels b) ! m =
      pixelsToBytes_loop (bytesToPixels b) 0 (replicate 6220800 0) ! m"
    by (simp add: pixelsToBytes_def length_bytesToPixels)
  also have "\<dots> = byteOrZero (bytesToPixels b) M"
    using m d by (subst nth_pixelsToBytes_loop) (simp_all add: length_bytesToPixels M_def)
  also have "\<dots> = bytesToPixels b ! M"
    using Mlt by (simp add: byteOrZero_def length_bytesToPixels)
  also have "\<dots> = byteOrZero b (3 * (m div 3) + m mod 3)"
    unfolding nth_bytesToPixels[OF Mlt] M4 using m3 by simp
  also have "\<dots> = b ! m"
    using m lb by (simp add: byteOrZero_def)
  finally show "pixelsToBytes (bytesToPixels b) ! m = b ! m" .
qed

text \<open>
  C6. For every buffer \<open>b\<close> of \<open>FRAME_BYTES\<close> bytes,
  \<open>pixelsToBytes (bytesToPixels b) = b\<close>. For every input, \<open>bytesToPixels\<close> returns
  \<open>1920 * 1080 * 4\<close> bytes and pixel \<open>i\<close> is R = \<open>b[3i]\<close>, G = \<open>b[3i+1]\<close>,
  B = \<open>b[3i+2]\<close>, A = 255, where a read past the end of \<open>b\<close> is zero.
\<close>

theorem pixels_roundtrip:
  "length (bytesToPixels b) = 1920 * 1080 * 4 \<and>
   (\<forall>i < 1920 * 1080.
      bytesToPixels b ! (4 * i) = (if 3 * i < length b then b ! (3 * i) else 0) \<and>
      bytesToPixels b ! (4 * i + 1) = (if 3 * i + 1 < length b then b ! (3 * i + 1) else 0) \<and>
      bytesToPixels b ! (4 * i + 2) = (if 3 * i + 2 < length b then b ! (3 * i + 2) else 0) \<and>
      bytesToPixels b ! (4 * i + 3) = 255) \<and>
   (length b = FRAME_BYTES \<longrightarrow> pixelsToBytes (bytesToPixels b) = b)"
proof (intro conjI allI impI)
  show "length (bytesToPixels b) = 1920 * 1080 * 4"
    by (simp add: length_bytesToPixels)
next
  fix i :: nat assume i: "i < 1920 * 1080"
  then have lt: "4 * i < 2073600 * 4" "4 * i + 1 < 2073600 * 4"
    "4 * i + 2 < 2073600 * 4" "4 * i + 3 < 2073600 * 4"
    by simp_all
  have d0: "(4 * i) div 4 = i" "(4 * i) mod 4 = 0" by simp_all
  have d1: "(4 * i + 1) div 4 = i" "(4 * i + 1) mod 4 = 1" using divmod4[of 1 i] by simp_all
  have d2: "(4 * i + 2) div 4 = i" "(4 * i + 2) mod 4 = 2" using divmod4[of 2 i] by simp_all
  have d3: "(4 * i + 3) div 4 = i" "(4 * i + 3) mod 4 = 3" using divmod4[of 3 i] by simp_all
  show "bytesToPixels b ! (4 * i) = (if 3 * i < length b then b ! (3 * i) else 0)"
    unfolding nth_bytesToPixels[OF lt(1)] d0 by (simp add: byteOrZero_def)
  show "bytesToPixels b ! (4 * i + 1) = (if 3 * i + 1 < length b then b ! (3 * i + 1) else 0)"
    unfolding nth_bytesToPixels[OF lt(2)] d1 by (simp add: byteOrZero_def)
  show "bytesToPixels b ! (4 * i + 2) = (if 3 * i + 2 < length b then b ! (3 * i + 2) else 0)"
    unfolding nth_bytesToPixels[OF lt(3)] d2 by (simp add: byteOrZero_def)
  show "bytesToPixels b ! (4 * i + 3) = 255"
    unfolding nth_bytesToPixels[OF lt(4)] d3 by simp
next
  assume "length b = FRAME_BYTES"
  then show "pixelsToBytes (bytesToPixels b) = b"
    by (rule pixelsToBytes_bytesToPixels)
qed

theorem pixels_roundtrip_witness:
  "length (replicate FRAME_BYTES (7 :: byte)) = FRAME_BYTES \<and>
   pixelsToBytes (bytesToPixels (replicate FRAME_BYTES 7)) = replicate FRAME_BYTES 7 \<and>
   (1 :: nat) < 1920 * 1080 \<and>
   bytesToPixels [1, 2, 3, 4] ! (4 * 1) = 4 \<and>
   bytesToPixels [1, 2, 3, 4] ! (4 * 1 + 1) = 0 \<and>
   bytesToPixels [1, 2, 3, 4] ! (4 * 1 + 2) = 0 \<and>
   bytesToPixels [1, 2, 3, 4] ! (4 * 1 + 3) = 255"
proof -
  note full = pixels_roundtrip[of "replicate FRAME_BYTES 7"]
  note short = pixels_roundtrip[of "[1, 2, 3, 4]"]
  have len: "length (replicate FRAME_BYTES (7 :: byte)) = FRAME_BYTES" by simp
  have one: "(1 :: nat) < 1920 * 1080" by simp
  from full len have rt: "pixelsToBytes (bytesToPixels (replicate FRAME_BYTES 7)) = replicate FRAME_BYTES 7"
    by blast
  from short one have px:
    "bytesToPixels [1, 2, 3, 4] ! (4 * 1) = (if 3 * 1 < length [1, 2, 3, 4 :: byte] then [1, 2, 3, 4] ! (3 * 1) else 0) \<and>
     bytesToPixels [1, 2, 3, 4] ! (4 * 1 + 1) = (if 3 * 1 + 1 < length [1, 2, 3, 4 :: byte] then [1, 2, 3, 4] ! (3 * 1 + 1) else 0) \<and>
     bytesToPixels [1, 2, 3, 4] ! (4 * 1 + 2) = (if 3 * 1 + 2 < length [1, 2, 3, 4 :: byte] then [1, 2, 3, 4] ! (3 * 1 + 2) else 0) \<and>
     bytesToPixels [1, 2, 3, 4] ! (4 * 1 + 3) = 255"
    by blast
  have v: "(if 3 * 1 < length [1, 2, 3, 4 :: byte] then [1, 2, 3, 4] ! (3 * 1) else 0) = (4 :: byte)"
       "(if 3 * 1 + 1 < length [1, 2, 3, 4 :: byte] then [1, 2, 3, 4] ! (3 * 1 + 1) else 0) = (0 :: byte)"
       "(if 3 * 1 + 2 < length [1, 2, 3, 4 :: byte] then [1, 2, 3, 4] ! (3 * 1 + 2) else 0) = (0 :: byte)"
    by simp_all
  from px have
    "bytesToPixels [1, 2, 3, 4] ! (4 * 1) = 4 \<and>
     bytesToPixels [1, 2, 3, 4] ! (4 * 1 + 1) = 0 \<and>
     bytesToPixels [1, 2, 3, 4] ! (4 * 1 + 2) = 0 \<and>
     bytesToPixels [1, 2, 3, 4] ! (4 * 1 + 3) = 255"
    unfolding v .
  with len one rt show ?thesis by blast
qed

subsection \<open>Empty input\<close>



lemma selectLoop_no_source:
  assumes "selectLoop state selected degree n = Some y"
  shows "\<not> (n = 0 \<and> degree = Num 2 \<and> (selected = [] \<or> selected = [NaN]))"
proof (rule selectLoop.raw_induct
    [where P = "\<lambda>state selected degree n y.
                  \<not> (n = 0 \<and> degree = Num 2 \<and> (selected = [] \<or> selected = [NaN]))",
     OF _ assms])
  fix f :: "u32 \<Rightarrow> jsnum list \<Rightarrow> jsnum \<Rightarrow> nat \<Rightarrow> jsnum list option"
    and state selected degree n y
  assume IH: "\<And>state selected degree n y. f state selected degree n = Some y \<Longrightarrow>
      \<not> (n = 0 \<and> degree = Num 2 \<and> (selected = [] \<or> selected = [NaN]))"
    and eq: "(if sizeBelow (length selected) degree
      then f (xorshift32_next state)
            (setAdd selected (js_rem (unat (xorshift32_next state)) (int n))) degree n
      else Some selected) = Some y"
  show "\<not> (n = 0 \<and> degree = Num 2 \<and> (selected = [] \<or> selected = [NaN]))"
  proof
    assume a: "n = 0 \<and> degree = Num 2 \<and> (selected = [] \<or> selected = [NaN])"
    then have below: "sizeBelow (length selected) degree" by auto
    have next_sel: "setAdd selected (js_rem (unat (xorshift32_next state)) (int n)) = [NaN]"
      using a by (auto simp: setAdd_def js_rem_def)
    from eq below next_sel
    have "f (xorshift32_next state) [NaN] degree n = Some y" by simp
    from IH[OF this] a show False by simp
  qed
qed

lemma getRepairSources_no_source: "getRepairSources r 0 = None"
proof (cases "getRepairSources r 0")
  case None
  then show ?thesis .
next
  case (Some y)
  then have "selectLoop (xorshift32_next (repairSeed r)) [] (Num 2) 0 = Some y"
    by (simp add: getRepairSources_def js_rem_def)
  from selectLoop_no_source[OF this] show ?thesis by simp
qed

lemma chunkLoop_empty: "chunkLoop [] 0 [] = []"
  by (subst chunkLoop.simps) simp

text \<open>
  C8. For an input of zero bytes the encoder has no source chunk and asks for one repair
  packet; \<open>getRepairSources 0 0\<close> then draws \<open>rng() % 0\<close>, which is \<open>NaN\<close>, for
  ever, since the set never reaches two elements. The encoder does not return: it raises
  no error and emits no frame.
\<close>

theorem encodeFrames_empty_input:
  "generateRepairPackets [] = None \<and> encodeFrames originalName originalSize originalMime encrypted [] = None"
  by (simp add: encodeFrames_def chunkLoop_empty generateRepairPackets_def repairCountFor_def
      getRepairSources_no_source)


subsection \<open>The generator\<close>

lemma repairSeed_exact:
  "r * 2654435761 + 1 < 2 ^ 53 \<Longrightarrow> repairSeed r = spec_repairSeed r"
  by (simp add: repairSeed_def spec_repairSeed_def xorshift32_def roundDouble_def add.commute)

text \<open>
  C2. The generator of \<open>getRepairSources\<close> shifts right by 17 with \<open>>>\<close>, which
  propagates the sign bit. For repair index 0 the seed is 1 and the first draw is
  \<open>0x42021\<close>; in the second draw the state has bit 31 set before the right shift, and
  the draw is \<open>0x04078601\<close>, where the zero-filling shift of xorshift32 gives
  \<open>0x04080601\<close>.
\<close>

theorem xorshift32_second_draw:
  "repairSeed 0 = 1 \<and> spec_repairSeed 0 = 1 \<and>
   xorshift32_next 1 = 0x42021 \<and> spec_xorshift32_next 1 = 0x42021 \<and>
   xorshift32_next 0x42021 = 0x04078601 \<and> spec_xorshift32_next 0x42021 = 0x04080601"
  by (simp add: repairSeed_def spec_repairSeed_def xorshift32_def roundDouble_def
      xorshift32_next_def spec_xorshift32_next_def)

subsection \<open>Recovery of one dropped source\<close>



lemma xorSum_simps [simp]: "xorSum [] = 0" "xorSum (x # xs) = x XOR xorSum xs"
  by (simp_all add: xorSum_def)




































































subsection \<open>Metadata\<close>

lemma unat_byte: "v < 256 \<Longrightarrow> unat (of_nat v :: byte) = v"
  by (simp add: unat_of_nat)

lemma mod_add_mult: "q < m \<Longrightarrow> (k * m + q) mod m = (q::nat)"
  by simp

lemma decode_1:
  assumes "c < 0x80"
  shows "utf8_decode 0 0 0 0x80 0xBF (utf8_encode_cp c @ rest) = c # utf8_decode 0 0 0 0x80 0xBF rest"
  using assms by (simp add: utf8_encode_cp_def unat_byte)

lemma decode_2:
  assumes "0x80 \<le> c" "c < 0x800"
  shows "utf8_decode 0 0 0 0x80 0xBF (utf8_encode_cp c @ rest) = c # utf8_decode 0 0 0 0x80 0xBF rest"
proof -
  define q r where "q = c div 64" and "r = c mod 64"
  define B1 B2 :: byte where "B1 = of_nat (0xC0 + q)" and "B2 = of_nat (0x80 + r)"
  have c: "c = q * 64 + r" by (simp add: q_def r_def)
  have q: "2 \<le> q" "q < 32" and r: "r < 64"
    using assms by (simp_all add: q_def r_def less_mult_imp_div_less)
  have b1: "unat B1 = 0xC0 + q" and b2: "unat B2 = 0x80 + r"
    unfolding B1_def B2_def using q r by (simp_all only: unat_byte)
  have m1: "(0xC0 + q) mod 32 = q" using q mod_add_mult[of q 32 6] by simp
  have m2: "(0x80 + r) mod 64 = r" using r mod_add_mult[of r 64 2] by simp
  have enc: "utf8_encode_cp c = [B1, B2]"
    using assms by (simp add: utf8_encode_cp_def q_def r_def B1_def B2_def)
  show ?thesis
    unfolding enc using q r by (simp add: b1 b2 m1 m2 c)
qed

lemma decode_3:
  assumes "0x800 \<le> c" "c < 0x10000" "\<not> isSurrogate c"
  shows "utf8_decode 0 0 0 0x80 0xBF (utf8_encode_cp c @ rest) = c # utf8_decode 0 0 0 0x80 0xBF rest"
proof -
  define p q r where "p = c div 4096" and "q = c div 64 mod 64" and "r = c mod 64"
  define B1 B2 B3 :: byte where "B1 = of_nat (0xE0 + p)" and "B2 = of_nat (0x80 + q)"
    and "B3 = of_nat (0x80 + r)"
  have c64: "c div 64 = p * 64 + q"
    using div_mult2_eq[of c 64 64] by (simp add: p_def q_def)
  have c: "c = (p * 64 + q) * 64 + r"
    unfolding c64[symmetric] by (simp add: r_def)
  have p: "p < 16" and q: "q < 64" and r: "r < 64"
    using assms by (simp_all add: p_def q_def r_def less_mult_imp_div_less)
  have lo: "p = 0 \<Longrightarrow> 32 \<le> q" using assms(1) c q r by simp
  have hi: "p = 13 \<Longrightarrow> q < 32" using assms(3) c q r by (simp add: isSurrogate_def)
  have b1: "unat B1 = 0xE0 + p" and b2: "unat B2 = 0x80 + q" and b3: "unat B3 = 0x80 + r"
    unfolding B1_def B2_def B3_def using p q r by (simp_all only: unat_byte)
  have m1: "(0xE0 + p) mod 16 = p" using p mod_add_mult[of p 16 14] by simp
  have m2: "(0x80 + q) mod 64 = q" using q mod_add_mult[of q 64 2] by simp
  have m3: "(0x80 + r) mod 64 = r" using r mod_add_mult[of r 64 2] by simp
  have enc: "utf8_encode_cp c = [B1, B2, B3]"
    using assms by (simp add: utf8_encode_cp_def p_def q_def r_def B1_def B2_def B3_def)
  show ?thesis
    unfolding enc using p q r lo hi by (auto simp add: b1 b2 b3 m1 m2 m3 c)
qed

lemma decode_4:
  assumes "0x10000 \<le> c" "c < 0x110000"
  shows "utf8_decode 0 0 0 0x80 0xBF (utf8_encode_cp c @ rest) = c # utf8_decode 0 0 0 0x80 0xBF rest"
proof -
  define o' p q r where "o' = c div 262144" and "p = c div 4096 mod 64"
    and "q = c div 64 mod 64" and "r = c mod 64"
  define B1 B2 B3 B4 :: byte where "B1 = of_nat (0xF0 + o')" and "B2 = of_nat (0x80 + p)"
    and "B3 = of_nat (0x80 + q)" and "B4 = of_nat (0x80 + r)"
  have c64: "c div 64 = c div 4096 * 64 + q"
    using div_mult2_eq[of c 64 64] by (simp add: q_def)
  have c4096: "c div 4096 = o' * 64 + p"
    using div_mult2_eq[of c 4096 64] by (simp add: o'_def p_def)
  have c: "c = ((o' * 64 + p) * 64 + q) * 64 + r"
    unfolding c4096[symmetric] c64[symmetric] by (simp add: r_def)
  have o: "o' < 5" and p: "p < 64" and q: "q < 64" and r: "r < 64"
    using assms by (simp_all add: o'_def p_def q_def r_def less_mult_imp_div_less)
  have lo: "o' = 0 \<Longrightarrow> 16 \<le> p" using assms(1) c p q r by simp
  have hi: "o' = 4 \<Longrightarrow> p < 16" using assms(2) c p q r by simp
  have b1: "unat B1 = 0xF0 + o'" and b2: "unat B2 = 0x80 + p" and b3: "unat B3 = 0x80 + q"
    and b4: "unat B4 = 0x80 + r"
    unfolding B1_def B2_def B3_def B4_def using o p q r by (simp_all only: unat_byte)
  have m1: "(0xF0 + o') mod 8 = o'" using o mod_add_mult[of o' 8 30] by simp
  have m2: "(0x80 + p) mod 64 = p" using p mod_add_mult[of p 64 2] by simp
  have m3: "(0x80 + q) mod 64 = q" using q mod_add_mult[of q 64 2] by simp
  have m4: "(0x80 + r) mod 64 = r" using r mod_add_mult[of r 64 2] by simp
  have enc: "utf8_encode_cp c = [B1, B2, B3, B4]"
    using assms by (simp add: utf8_encode_cp_def o'_def p_def q_def r_def B1_def B2_def B3_def B4_def)
  show ?thesis
    unfolding enc using o p q r lo hi by (auto simp add: b1 b2 b3 b4 m1 m2 m3 m4 c)
qed

lemma decode_encode_cp:
  assumes "isScalar c"
  shows "utf8_decode 0 0 0 0x80 0xBF (utf8_encode_cp c @ rest) = c # utf8_decode 0 0 0 0x80 0xBF rest"
proof -
  consider "c < 0x80" | "0x80 \<le> c" "c < 0x800" | "0x800 \<le> c" "c < 0x10000" | "0x10000 \<le> c"
    by linarith
  then show ?thesis
    using assms decode_1 decode_2 decode_3 decode_4
    by cases (simp_all add: isScalar_def)
qed

lemma decode_encode:
  assumes "\<forall>c \<in> set s. isScalar c"
  shows "utf8_decode 0 0 0 0x80 0xBF (TextEncoder_encode s) = s"
  using assms
proof (induction s)
  case Nil
  then show ?case by (simp add: TextEncoder_encode_def)
next
  case (Cons c s)
  then have sc: "isScalar c" and IH: "utf8_decode 0 0 0 0x80 0xBF (TextEncoder_encode s) = s"
    by simp_all
  have "TextEncoder_encode (c # s) = utf8_encode_cp c @ TextEncoder_encode s"
    using sc by (simp add: TextEncoder_encode_def isScalar_def)
  then show ?case using decode_encode_cp[OF sc] IH by simp
qed

lemma TextDecoder_TextEncoder:
  assumes "\<forall>c \<in> set s. isScalar c" "take 1 s \<noteq> [0xFEFF]"
  shows "TextDecoder_decode (TextEncoder_encode s) = s"
proof -
  have "TextDecoder_decode (TextEncoder_encode s) =
      (case s of [] \<Rightarrow> [] | c # cs \<Rightarrow> if c = 0xFEFF then cs else c # cs)"
    by (simp only: TextDecoder_decode_def decode_encode[OF assms(1)])
  then show ?thesis using assms(2) by (cases s) simp_all
qed

lemma typedArraySet_at:
  "length pre = off \<Longrightarrow> length src \<le> length rest \<Longrightarrow>
   typedArraySet (pre @ rest) src off = Inr (pre @ src @ drop (length src) rest)"
  by (simp add: typedArraySet_def)

lemma length_u32_le: "length (u32_le v) = 4"
  by (simp add: u32_le_def)

lemma encodeMetadata_layout:
  "encodeMetadata fname fsize mime enc =
     Inr (metadata_bytes (TextEncoder_encode fname) fsize (TextEncoder_encode mime) enc)"
proof -
  define nb mb where "nb = TextEncoder_encode fname" and "mb = TextEncoder_encode mime"
  define nl ml where "nl = length nb" and "ml = length mb"
  define buf :: "byte list" where "buf = replicate (4 + nl + 4 + 4 + ml + 1) 0"
  define h1 where "h1 = u32_le nl"
  define h2 where "h2 = h1 @ nb"
  define h3 where "h3 = h2 @ u32_le fsize"
  define h4 where "h4 = h3 @ u32_le ml"
  define h5 where "h5 = h4 @ mb"
  have len: "length h1 = 4" "length h2 = 4 + nl" "length h3 = 4 + nl + 4"
    "length h4 = 4 + nl + 4 + 4" "length h5 = 4 + nl + 4 + 4 + ml"
    by (simp_all add: h1_def h2_def h3_def h4_def h5_def length_u32_le nl_def ml_def)
  have lb: "length buf = 4 + nl + 4 + 4 + ml + 1" by (simp add: buf_def)
  have s1: "setUint32 buf 0 nl = Inr (h1 @ drop 4 buf)"
    using setUint32_at[of "[]" 0 buf nl] lb by (simp add: h1_def)
  have s2: "typedArraySet (h1 @ drop 4 buf) nb 4 = Inr (h2 @ drop (4 + nl) buf)"
    using typedArraySet_at[of h1 4 nb "drop 4 buf"] len lb
    by (simp add: h2_def nl_def add.commute)
  have s3: "setUint32 (h2 @ drop (4 + nl) buf) (4 + nl) fsize = Inr (h3 @ drop (4 + nl + 4) buf)"
    using setUint32_at[of h2 "4 + nl" "drop (4 + nl) buf" fsize] len lb
    by (simp add: h3_def add.commute)
  have s4: "setUint32 (h3 @ drop (4 + nl + 4) buf) (4 + nl + 4) ml =
      Inr (h4 @ drop (4 + nl + 4 + 4) buf)"
    using setUint32_at[of h3 "4 + nl + 4" "drop (4 + nl + 4) buf" ml] len lb
    by (simp add: h4_def add.commute)
  have s5: "typedArraySet (h4 @ drop (4 + nl + 4 + 4) buf) mb (4 + nl + 4 + 4) =
      Inr (h5 @ drop (4 + nl + 4 + 4 + ml) buf)"
    using typedArraySet_at[of h4 "4 + nl + 4 + 4" mb "drop (4 + nl + 4 + 4) buf"] len lb
    by (simp add: h5_def ml_def add.commute)
  have last: "drop (4 + nl + 4 + 4 + ml) buf = [0]"
    by (simp add: buf_def)
  have s6: "(h5 @ drop (4 + nl + 4 + 4 + ml) buf)[4 + nl + 4 + 4 + ml := (if enc then 1 else 0)] =
      h5 @ [if enc then 1 else 0]"
    unfolding last using len(5) by (simp add: list_update_append)
  have "encodeMetadata fname fsize mime enc = Inr (h5 @ [if enc then 1 else 0])"
    unfolding encodeMetadata_def Let_def nb_def[symmetric] mb_def[symmetric]
      nl_def[symmetric] ml_def[symmetric] buf_def[symmetric]
    by (simp only: s1 s2 s3 s4 s5 s6 andThen_def sum.case)
  then show ?thesis
    by (simp add: metadata_bytes_def h5_def h4_def h3_def h2_def h1_def nb_def mb_def nl_def ml_def)
qed

lemma decodeMetadata_layout:
  assumes "length nb < 2 ^ 32" "length mb < 2 ^ 32" "fsize < 2 ^ 32"
  shows "decodeMetadata (metadata_bytes nb fsize mb enc) =
     Inr \<lparr>filename = TextDecoder_decode nb, fileSize = fsize,
          mimeType = TextDecoder_decode mb, isEncrypted = enc\<rparr>"
proof -
  define nl ml where "nl = length nb" and "ml = length mb"
  define P where "P = metadata_bytes nb fsize mb enc"
  define flag :: byte where "flag = (if enc then 1 else 0)"
  have P: "P = u32_le nl @ nb @ u32_le fsize @ u32_le ml @ mb @ [flag]"
    by (simp add: P_def metadata_bytes_def nl_def ml_def flag_def)
  have g1: "getUint32 P 0 = Inr nl"
    using getUint32_at[of "[]" 0 nl "nb @ u32_le fsize @ u32_le ml @ mb @ [flag]"] assms(1)
    by (simp add: P nl_def)
  have g2: "getUint32 P (4 + nl) = Inr fsize"
    using getUint32_at[of "u32_le nl @ nb" "4 + nl" fsize "u32_le ml @ mb @ [flag]"] assms(3)
    by (simp add: P nl_def length_u32_le)
  have g3: "getUint32 P (4 + nl + 4) = Inr ml"
    using getUint32_at[of "u32_le nl @ nb @ u32_le fsize" "4 + nl + 4" ml "mb @ [flag]"] assms(2)
    by (simp add: P nl_def ml_def length_u32_le)
  have sl1: "slice P 4 (4 + nl) = nb"
    by (simp add: slice_def P length_u32_le nl_def)
  have sl2: "slice P (4 + nl + 4 + 4) (4 + nl + 4 + 4 + ml) = mb"
    by (simp add: slice_def P length_u32_le nl_def ml_def)
  have lenP: "length P = 4 + nl + 4 + 4 + ml + 1"
    by (simp add: P length_u32_le nl_def ml_def)
  have nthP: "P ! (4 + nl + 4 + 4 + ml) = flag"
    using nth_append_length[of "u32_le nl @ nb @ u32_le fsize @ u32_le ml @ mb" flag "[]"]
    by (simp add: P length_u32_le nl_def ml_def add.commute add.left_commute)
  have fl: "(flag = 1) = enc" by (simp add: flag_def)
  show ?thesis
    unfolding P_def[symmetric] decodeMetadata_def Let_def
    using g1 g2 g3 sl1 sl2 lenP nthP fl
    by (simp add: andThen_def)
qed

text \<open>
  C5 (amended). For a filename and a mime type that consist of Unicode scalar values (no
  unpaired surrogate), that do not begin with \<open>U+FEFF\<close> and whose UTF-8 encodings are
  shorter than \<open>2^32\<close> bytes, for every file size below \<open>2^32\<close> and every flag,
  \<open>decodeMetadata\<close> of \<open>encodeMetadata\<close> returns exactly the four values given.
\<close>

theorem metadata_roundtrip:
  assumes "\<forall>c \<in> set fname. c < 0x110000 \<and> \<not> isSurrogate c"
    and "\<forall>c \<in> set mime. c < 0x110000 \<and> \<not> isSurrogate c"
    and "take 1 fname \<noteq> [0xFEFF]" "take 1 mime \<noteq> [0xFEFF]"
    and "length (TextEncoder_encode fname) < 2 ^ 32" "length (TextEncoder_encode mime) < 2 ^ 32"
    and "fsize < 2 ^ 32"
  shows "andThen (encodeMetadata fname fsize mime enc) decodeMetadata =
     Inr \<lparr>filename = fname, fileSize = fsize, mimeType = mime, isEncrypted = enc\<rparr>"
proof -
  have a: "\<forall>c \<in> set fname. isScalar c" "\<forall>c \<in> set mime. isScalar c"
    using assms(1,2) by (simp_all add: isScalar_def)
  show ?thesis
    unfolding encodeMetadata_layout andThen_def
    using decodeMetadata_layout[OF assms(5,6,7)]
      TextDecoder_TextEncoder[OF a(1) assms(3)] TextDecoder_TextEncoder[OF a(2) assms(4)]
    by simp
qed

theorem metadata_roundtrip_witness:
  "andThen (encodeMetadata [0x61, 0xE9, 0x20AC, 0x1F600] 256 [0x74] True) decodeMetadata =
     Inr \<lparr>filename = [0x61, 0xE9, 0x20AC, 0x1F600], fileSize = 256, mimeType = [0x74],
          isEncrypted = True\<rparr>"
  using metadata_roundtrip[of "[0x61, 0xE9, 0x20AC, 0x1F600]" "[0x74]" 256 True]
  by (simp add: isSurrogate_def TextEncoder_encode_def utf8_encode_cp_def)

text \<open>
  C5 as stated fails: the decoder drops a leading \<open>U+FEFF\<close>, so the filename
  \<open>U+FEFF a\<close> comes back as \<open>a\<close>.
\<close>

theorem metadata_bom_counterexample:
  "andThen (encodeMetadata [0xFEFF, 0x61] 0 [] False) decodeMetadata =
     Inr \<lparr>filename = [0x61], fileSize = 0, mimeType = [], isEncrypted = False\<rparr>"
  unfolding encodeMetadata_layout andThen_def
  using decodeMetadata_layout[of "TextEncoder_encode [0xFEFF, 0x61]" "TextEncoder_encode []" 0 False]
  by (simp add: TextEncoder_encode_def utf8_encode_cp_def isSurrogate_def TextDecoder_decode_def)

lemma getUint32_le32At:
  "getUint32 buf off = (if length buf < off + 4 then Inl RangeError else Inr (le32At buf off))"
  by (simp add: getUint32_def le32At_def)

text \<open>
  C9 (amended). \<open>decodeMetadata\<close> validates nothing and has no error of its own. It
  raises \<open>RangeError\<close> exactly when the payload has fewer than 4 bytes or fewer than
  \<open>12 + nameLen\<close> bytes, that is when one of its three 32-bit reads leaves the payload.
  Otherwise it succeeds: the filename and the mime type are decoded from the bytes that are
  there (a declared length beyond the payload gives a shorter string, malformed UTF-8 is
  replaced by \<open>U+FFFD\<close>), and a flag byte that is missing reads as not encrypted.
\<close>

theorem decodeMetadata_behaviour:
  "decodeMetadata payload =
     (if length payload < 4 \<or> length payload < le32At payload 0 + 12 then Inl RangeError
      else Inr \<lparr>filename = TextDecoder_decode (take (le32At payload 0) (drop 4 payload)),
                fileSize = le32At payload (4 + le32At payload 0),
                mimeType = TextDecoder_decode
                  (take (le32At payload (8 + le32At payload 0))
                        (drop (12 + le32At payload 0) payload)),
                isEncrypted =
                  (12 + le32At payload 0 + le32At payload (8 + le32At payload 0) < length payload \<and>
                   payload ! (12 + le32At payload 0 + le32At payload (8 + le32At payload 0)) = 1)\<rparr>)"
proof -
  define n where "n = le32At payload 0"
  define m where "m = le32At payload (8 + n)"
  consider (short) "length payload < 4"
    | (size) "4 \<le> length payload" "length payload < n + 8"
    | (mime) "4 \<le> length payload" "n + 8 \<le> length payload" "length payload < n + 12"
    | (ok) "4 \<le> length payload" "n + 12 \<le> length payload"
    by linarith
  then show ?thesis
  proof cases
    case short
    then show ?thesis
      by (simp add: decodeMetadata_def getUint32_le32At andThen_def)
  next
    case size
    then show ?thesis
      unfolding n_def
      by (simp add: decodeMetadata_def getUint32_le32At andThen_def Let_def)
  next
    case mime
    then show ?thesis
      unfolding n_def
      by (simp add: decodeMetadata_def getUint32_le32At andThen_def Let_def)
  next
    case ok
    then show ?thesis
      unfolding n_def
      by (simp add: decodeMetadata_def getUint32_le32At andThen_def Let_def slice_def add_ac)
  qed
qed

text \<open>
  C9 as stated fails: a payload that declares five mime bytes and holds one decodes to the
  one-character mime type; a filename byte \<open>0xFF\<close> decodes to \<open>U+FFFD\<close>; and a
  payload cut inside the filename raises \<open>RangeError\<close>.
\<close>

theorem decodeMetadata_counterexample:
  "decodeMetadata [0, 0, 0, 0, 0, 0, 0, 0, 5, 0, 0, 0, 0x61] =
     Inr \<lparr>filename = [], fileSize = 0, mimeType = [0x61], isEncrypted = False\<rparr> \<and>
   decodeMetadata [1, 0, 0, 0, 0xFF, 0, 0, 0, 0, 0, 0, 0, 0, 0] =
     Inr \<lparr>filename = [0xFFFD], fileSize = 0, mimeType = [], isEncrypted = False\<rparr> \<and>
   decodeMetadata [9, 0, 0, 0, 0x61] = Inl RangeError"
  by (simp add: decodeMetadata_def getUint32_def andThen_def slice_def TextDecoder_decode_def)

subsection \<open>Selection of repair sources\<close>

text \<open>
  Whenever \<open>getRepairSources\<close> returns for at least two sources, its result is a list of
  pairwise distinct indices below the source count, of a length between 2 and
  \<open>min 5 n\<close>. The loop returns only if the generator keeps producing new residues; the
  generator has the fixed point \<open>0x4E260138\<close>, and from that state the selection loop
  does not return.
\<close>

lemma setAdd_ok:
  assumes "selectionOk n k xs" "length xs < k" "0 < n"
  shows "selectionOk n k (setAdd xs (js_rem a (int n)))"
  using assms by (auto simp: selectionOk_def setAdd_def js_rem_def)

lemma selectLoop_result:
  assumes "selectLoop state selected degree n = Some ys"
  shows "0 < n \<longrightarrow> (\<forall>k. degree = Num k \<longrightarrow> selectionOk n k selected \<longrightarrow>
           selectionOk n k ys \<and> length ys = k)"
proof (rule selectLoop.raw_induct
    [where P = "\<lambda>state selected degree n ys.
        0 < n \<longrightarrow> (\<forall>k. degree = Num k \<longrightarrow> selectionOk n k selected \<longrightarrow>
           selectionOk n k ys \<and> length ys = k)",
     OF _ assms])
  fix f :: "u32 \<Rightarrow> jsnum list \<Rightarrow> jsnum \<Rightarrow> nat \<Rightarrow> jsnum list option"
    and state selected degree n ys
  assume IH: "\<And>state selected degree n ys. f state selected degree n = Some ys \<Longrightarrow>
      0 < n \<longrightarrow> (\<forall>k. degree = Num k \<longrightarrow> selectionOk n k selected \<longrightarrow>
           selectionOk n k ys \<and> length ys = k)"
    and eq: "(if sizeBelow (length selected) degree
      then f (xorshift32_next state)
            (setAdd selected (js_rem (unat (xorshift32_next state)) (int n))) degree n
      else Some selected) = Some ys"
  show "0 < n \<longrightarrow> (\<forall>k. degree = Num k \<longrightarrow> selectionOk n k selected \<longrightarrow>
           selectionOk n k ys \<and> length ys = k)"
  proof (intro impI allI)
    fix k assume n: "0 < n" and d: "degree = Num k" and ok: "selectionOk n k selected"
    show "selectionOk n k ys \<and> length ys = k"
    proof (cases "length selected < k")
      case True
      with eq d have "f (xorshift32_next state)
            (setAdd selected (js_rem (unat (xorshift32_next state)) (int n))) degree n = Some ys"
        by simp
      from IH[OF this] n d setAdd_ok[OF ok True n] show ?thesis by blast
    next
      case False
      with eq d have "ys = selected" by simp
      with False ok show ?thesis by (simp add: selectionOk_def)
    qed
  qed
qed

lemma getRepairSources_result:
  assumes "2 \<le> n" "getRepairSources r n = Some ys"
  shows "distinct ys \<and> set ys \<subseteq> Num ` {0 ..< n} \<and> 2 \<le> length ys \<and> length ys \<le> min 5 n"
proof -
  define s1 where "s1 = xorshift32_next (repairSeed r)"
  define d where "d = unat s1 mod nat (min 4 (int n - 1))"
  have m: "nat \<bar>min 4 (int n - 1)\<bar> = nat (min 4 (int n - 1))" "min 4 (int n - 1) \<noteq> 0"
    using assms(1) by auto
  have dlt: "d < nat (min 4 (int n - 1))"
    unfolding d_def using assms(1) by (intro mod_less_divisor) auto
  have deg: "js_rem (unat s1) (min 4 (int n - 1)) = Num d"
    using m by (simp add: js_rem_def d_def)
  have "selectLoop s1 [] (Num (2 + d)) n = Some ys"
    using assms(2) deg by (simp add: getRepairSources_def s1_def)
  from selectLoop_result[OF this] assms(1)
  have "selectionOk n (2 + d) ys \<and> length ys = 2 + d"
    by (simp add: selectionOk_def)
  moreover have "2 + d \<le> min 5 n" using dlt assms(1) by auto
  ultimately show ?thesis by (simp add: selectionOk_def)
qed

lemma xorshift32_fixed_point: "xorshift32_next 0x4E260138 = 0x4E260138"
  by (simp add: xorshift32_next_def)

lemma selectLoop_fixed_point:
  assumes "selectLoop state selected degree n = Some ys"
  shows "\<not> (state = 0x4E260138 \<and> (\<exists>k\<ge>2. degree = Num k) \<and>
           (selected = [] \<or> selected = [js_rem (unat (0x4E260138 :: u32)) (int n)]))"
proof (rule selectLoop.raw_induct
    [where P = "\<lambda>state selected degree n ys.
        \<not> (state = 0x4E260138 \<and> (\<exists>k\<ge>2. degree = Num k) \<and>
           (selected = [] \<or> selected = [js_rem (unat (0x4E260138 :: u32)) (int n)]))",
     OF _ assms])
  fix f :: "u32 \<Rightarrow> jsnum list \<Rightarrow> jsnum \<Rightarrow> nat \<Rightarrow> jsnum list option"
    and state selected degree n ys
  assume IH: "\<And>state selected degree n ys. f state selected degree n = Some ys \<Longrightarrow>
      \<not> (state = 0x4E260138 \<and> (\<exists>k\<ge>2. degree = Num k) \<and>
           (selected = [] \<or> selected = [js_rem (unat (0x4E260138 :: u32)) (int n)]))"
    and eq: "(if sizeBelow (length selected) degree
      then f (xorshift32_next state)
            (setAdd selected (js_rem (unat (xorshift32_next state)) (int n))) degree n
      else Some selected) = Some ys"
  show "\<not> (state = 0x4E260138 \<and> (\<exists>k\<ge>2. degree = Num k) \<and>
           (selected = [] \<or> selected = [js_rem (unat (0x4E260138 :: u32)) (int n)]))"
  proof
    assume a: "state = 0x4E260138 \<and> (\<exists>k\<ge>2. degree = Num k) \<and>
           (selected = [] \<or> selected = [js_rem (unat (0x4E260138 :: u32)) (int n)])"
    then have below: "sizeBelow (length selected) degree" by auto
    have st: "xorshift32_next state = 0x4E260138"
      using a xorshift32_fixed_point by simp
    have sel: "setAdd selected (js_rem (unat (xorshift32_next state)) (int n)) =
        [js_rem (unat (0x4E260138 :: u32)) (int n)]"
      unfolding st using a by (auto simp: setAdd_def)
    from eq below have "f (xorshift32_next state)
        (setAdd selected (js_rem (unat (xorshift32_next state)) (int n))) degree n = Some ys"
      by simp
    then have "f 0x4E260138 [js_rem (unat (0x4E260138 :: u32)) (int n)] degree n = Some ys"
      by (simp only: sel) (simp only: st)
    from IH[OF this] a show False by blast
  qed
qed

end
